theory Spec2Isabelle
  imports Main "HOL-Library.Word"
begin

unbundle bit_operations_syntax

section \<open>Block sync reactor: data model\<close>

text \<open>
  The embedding follows \<^verbatim>\<open>internal/blocksync/reactor.go\<close> and the generated codec of
  \<^verbatim>\<open>cometbft/blocksync/v2/types.proto\<close>. Go's \<^verbatim>\<open>int64\<close> is a 64-bit word read as two's
  complement; a byte slice is a list of bytes (the nil slice and the empty slice are both
  \<open>[]\<close>, which is how \<^verbatim>\<open>len\<close> and \<^verbatim>\<open>bytes.Equal\<close> see them); a pointer that may be nil is
  an \<open>option\<close>. A \<^verbatim>\<open>time.Time\<close> is the instant it denotes, in nanoseconds, and a
  \<^verbatim>\<open>time.Duration\<close> a number of nanoseconds.
\<close>

type_synonym byte = "8 word"
type_synonym bytes = "byte list"
type_synonym int64 = "64 word"
type_synonym NodeID = string
type_synonym Time = int
type_synonym Duration = int

subsection \<open>Errors and panics\<close>

text \<open>
  A panic carries a value: the string of an explicit \<^verbatim>\<open>panic(...)\<close>, or a runtime error
  (a nil dereference).
\<close>

datatype panicval = PanicString string | RuntimeError string

text \<open>
  The arguments of a format string are kept as they are passed, unformatted; \<open>ArgOpaque\<close>
  names an argument whose value is not modelled.
\<close>

datatype fmtarg =
    ArgInt int
  | ArgInt64 int64
  | ArgTime Time
  | ArgBytes bytes
  | ArgString string
  | ArgPanic panicval
  | ArgOpaque string

text \<open>
  Go's errors by dynamic type: \<^verbatim>\<open>errors.New\<close> and \<^verbatim>\<open>fmt.Errorf\<close> without \<^verbatim>\<open>%w\<close> both
  build an \<^verbatim>\<open>*errors.errorString\<close> (\<open>ErrorString\<close>, the format and its arguments);
  \<^verbatim>\<open>fmt.Errorf\<close> with \<^verbatim>\<open>%w\<close> builds a \<^verbatim>\<open>*fmt.wrapError\<close> around the wrapped error;
  \<^verbatim>\<open>light.ErrInvalidHeader\<close> is the light client's struct with its \<^verbatim>\<open>Reason\<close>;
  \<^verbatim>\<open>context.Canceled\<close> and \<^verbatim>\<open>context.DeadlineExceeded\<close> are the two sentinels that
  \<^verbatim>\<open>processBlockSyncCh\<close> looks for.
\<close>

datatype error =
    ErrorString string "fmtarg list"
  | WrapError string "fmtarg list" error
  | ErrInvalidHeader error
  | Canceled
  | DeadlineExceeded

subsection \<open>Headers, blocks and state\<close>

text \<open>
  Of \<^verbatim>\<open>types.Header\<close> the fields the reactor reads. \<^verbatim>\<open>types.Commit\<close> and
  \<^verbatim>\<open>types.ValidatorSet\<close> are declared outside these sources and only passed on, so they
  are opaque handles here; the hash of a validator set is a parameter of what uses it.
\<close>

record Header =
  ChainID :: string
  Height :: int64
  Time :: Time
  ValidatorsHash :: bytes
  NextValidatorsHash :: bytes

datatype Commit = Commit nat

datatype ValidatorSet = ValidatorSet nat

text \<open>
  \<^verbatim>\<open>types.SignedHeader\<close> embeds \<^verbatim>\<open>*Header\<close> and \<^verbatim>\<open>*Commit\<close>. The reactor always builds it
  from the address of a block's header, so the header is present; the commit may be nil.
\<close>

record SignedHeader =
  shHeader :: Header
  shCommit :: "Commit option"

subsection \<open>Constants and the channel descriptor\<close>

definition Millisecond :: Duration where
  "Millisecond = 1000000"

definition Second :: Duration where
  "Second = 1000 * Millisecond"

definition BlockSyncChannel :: nat where
  "BlockSyncChannel = 0x40"

definition trySyncIntervalMS :: int where
  "trySyncIntervalMS = 10"

definition statusUpdateIntervalSeconds :: int where
  "statusUpdateIntervalSeconds = 10"

definition switchToConsensusIntervalSeconds :: int where
  "switchToConsensusIntervalSeconds = 1"

definition syncTimeout :: Duration where
  "syncTimeout = 60 * Second"

text \<open>
  The periods the tickers are created with: \<^verbatim>\<open>trySyncIntervalMS * time.Millisecond\<close> and
  \<^verbatim>\<open>switchToConsensusIntervalSeconds * time.Second\<close> in \<^verbatim>\<open>poolRoutine\<close>,
  \<^verbatim>\<open>statusUpdateIntervalSeconds * time.Second\<close> in \<^verbatim>\<open>requestRoutine\<close>.
\<close>

definition trySyncTickerPeriod :: Duration where
  "trySyncTickerPeriod = trySyncIntervalMS * Millisecond"

definition switchToConsensusTickerPeriod :: Duration where
  "switchToConsensusTickerPeriod = switchToConsensusIntervalSeconds * Second"

definition statusUpdateTickerPeriod :: Duration where
  "statusUpdateTickerPeriod = statusUpdateIntervalSeconds * Second"

record ChannelDescriptor =
  ID :: nat
  Priority :: int
  SendQueueCapacity :: int
  RecvBufferCapacity :: int
  RecvMessageCapacity :: int

text \<open>
  \<^verbatim>\<open>MaxMsgSize\<close> is declared in a file of the package that is not among the sources: it
  is a parameter. The descriptor's \<^verbatim>\<open>MessageType\<close>, a fresh empty message, carries no
  data and is left out.
\<close>

definition GetChannelDescriptor :: "int \<Rightarrow> ChannelDescriptor" where
  "GetChannelDescriptor MaxMsgSize =
     \<lparr> ID = BlockSyncChannel,
       Priority = 5,
       SendQueueCapacity = 1000,
       RecvBufferCapacity = 1024,
       RecvMessageCapacity = MaxMsgSize \<rparr>"

section \<open>The adjacent verifier\<close>

text \<open>
  \<^verbatim>\<open>VerifyAdjacent\<close>, check by check in the order of the source. The structural validation
  \<^verbatim>\<open>SignedHeader.ValidateBasic\<close> and \<^verbatim>\<open>ValidatorSet.Hash\<close> belong to the \<^verbatim>\<open>types\<close>
  package: they are the parameters \<open>validateBasic\<close> and \<open>valsHash\<close>. Heights are compared
  as Go compares \<^verbatim>\<open>int64\<close>: \<open>+\<close> wraps, \<open>\<le>s\<close> is the signed order.
\<close>

definition VerifyAdjacent ::
  "(SignedHeader \<Rightarrow> string \<Rightarrow> error option) \<Rightarrow> (ValidatorSet \<Rightarrow> bytes) \<Rightarrow>
   SignedHeader \<Rightarrow> SignedHeader \<Rightarrow> ValidatorSet \<Rightarrow> error option" where
  "VerifyAdjacent validateBasic valsHash trustedHeader untrustedHeader untrustedVals =
    (let t = shHeader trustedHeader; u = shHeader untrustedHeader in
     if length (NextValidatorsHash t) = 0 then
       Some (ErrorString ''next validators hash in trusted header is empty'' [])
     else if Height u \<noteq> Height t + 1 then
       Some (ErrorString ''headers must be adjacent in height'' [])
     else case validateBasic untrustedHeader (ChainID t) of
       Some err \<Rightarrow> Some (WrapError ''untrustedHeader.ValidateBasic failed: %w'' [] err)
     | None \<Rightarrow>
       if Height u \<le>s Height t then
         Some (ErrorString
           ''expected new header height %d to be greater than one of old header %d''
           [ArgInt64 (Height u), ArgInt64 (Height t)])
       else if \<not> (Time u > Time t) then
         Some (ErrorString ''expected new header time %v to be after old header time %v''
           [ArgTime (Time u), ArgTime (Time t)])
       else if ValidatorsHash u \<noteq> valsHash untrustedVals then
         Some (ErrorString
           ''expected new header validators (%X) to match those that were supplied (%X) at height %d''
           [ArgBytes (ValidatorsHash u), ArgBytes (valsHash untrustedVals), ArgInt64 (Height u)])
       else if ValidatorsHash u \<noteq> NextValidatorsHash t then
         Some (ErrInvalidHeader (ErrorString
           ''expected old header's next validators (%X) to match those from new header (%X)''
           [ArgBytes (NextValidatorsHash t), ArgBytes (ValidatorsHash u)]))
       else None)"

text \<open>
  The tag a caller can test for: the error is a \<^verbatim>\<open>light.ErrInvalidHeader\<close>, the only
  dedicated error type \<^verbatim>\<open>VerifyAdjacent\<close> returns.
\<close>

fun isErrInvalidHeader :: "error \<Rightarrow> bool" where
  "isErrInvalidHeader (ErrInvalidHeader r) = True"
| "isErrInvalidHeader e = False"

text \<open>
  The six rules of the verifier, as the specification numbers them. Rule 2 is about the
  heights as integers (\<open>sint\<close> reads the word as two's complement).
\<close>

definition rule1 :: "SignedHeader \<Rightarrow> bool" where
  "rule1 T = (NextValidatorsHash (shHeader T) \<noteq> [])"

definition rule2 :: "SignedHeader \<Rightarrow> SignedHeader \<Rightarrow> bool" where
  "rule2 T U = (sint (Height (shHeader U)) = sint (Height (shHeader T)) + 1)"

definition rule3 :: "(SignedHeader \<Rightarrow> string \<Rightarrow> error option) \<Rightarrow> SignedHeader \<Rightarrow> SignedHeader \<Rightarrow> bool" where
  "rule3 validateBasic T U = (validateBasic U (ChainID (shHeader T)) = None)"

definition rule4 :: "SignedHeader \<Rightarrow> SignedHeader \<Rightarrow> bool" where
  "rule4 T U = (Time (shHeader U) > Time (shHeader T))"

definition rule5 :: "(ValidatorSet \<Rightarrow> bytes) \<Rightarrow> SignedHeader \<Rightarrow> ValidatorSet \<Rightarrow> bool" where
  "rule5 valsHash U V = (ValidatorsHash (shHeader U) = valsHash V)"

definition rule6 :: "SignedHeader \<Rightarrow> SignedHeader \<Rightarrow> bool" where
  "rule6 T U = (ValidatorsHash (shHeader U) = NextValidatorsHash (shHeader T))"

section \<open>The reactor\<close>

subsection \<open>Blocks, state, messages\<close>

text \<open>
  \<^verbatim>\<open>types.Block\<close> embeds its header. \<open>BlockResponse\<close> is the pool's pair of pointers
  \<^verbatim>\<open>{block, commit}\<close> that \<^verbatim>\<open>PeekBlock\<close> returns and \<^verbatim>\<open>lastTrustedBlock\<close> holds.
\<close>

record Block =
  bHeader :: Header
  LastCommit :: "Commit option"

record BlockResponse =
  block :: "Block option"
  commit :: "Commit option"

record PartSetHeader =
  Total :: "32 word"
  partsHash :: bytes

datatype PartSet = PartSet (partsHeader: PartSetHeader)

record BlockID =
  Hash :: bytes
  PartSetHeader :: PartSetHeader

record State =
  InitialHeight :: int64
  LastBlockHeight :: int64
  Validators :: ValidatorSet
  NextValidators :: ValidatorSet

text \<open>
  The wire messages of the block-sync channel as the reactor sees them (package
  \<^verbatim>\<open>bcproto\<close>), and the stored protobuf forms of a block and a commit, which the reactor
  only passes on. \<open>MsgOther\<close> is any other \<^verbatim>\<open>proto.Message\<close>, named by its type.
\<close>

datatype BlockProto = BlockProto nat

datatype CommitProto = CommitProto nat

datatype BlockRequest = BlockRequest (reqHeight: int64)

datatype NoBlockResponse = NoBlockResponse (noBlockHeight: int64)

datatype StatusRequest = StatusRequest

datatype StatusResponse = StatusResponse (statusHeight: int64) (statusBase: int64)

datatype ProtoMessage =
    MsgBlockRequest BlockRequest
  | MsgBlockResponse "BlockProto option" "CommitProto option"
  | MsgStatusRequest StatusRequest
  | MsgStatusResponse StatusResponse
  | MsgNoBlockResponse NoBlockResponse
  | MsgOther string

record Envelope =
  From :: NodeID
  To :: NodeID
  Broadcast :: bool
  Message :: ProtoMessage

record PeerError =
  NodeID :: NodeID
  Err :: error

subsection \<open>Effects\<close>

text \<open>
  The pool, the block store, the executor, the transport and the consensus reactor are
  other components. A call that changes one of them is recorded, in order, in the reactor's
  \<open>trace\<close>; what such a call returns is given by the environment \<open>Env\<close>. Logging is left
  out. A call into the store that reads a stored protobuf may panic (\<open>Panics\<close>).
\<close>

datatype event =
    Send Envelope
  | SendError PeerError
  | RedoRequest int64
  | PopRequest
  | SaveBlock Block PartSet "Commit option"
  | ApplyBlock State BlockID Block
  | RecordConsMetrics Block
  | PoolStop
  | SwitchToConsensus State bool
  | AddBlock NodeID BlockResponse int
  | SetPeerRange NodeID int64 int64

datatype 'a call = Returns 'a | Panics panicval

record Env =
  validateBasic :: "SignedHeader \<Rightarrow> string \<Rightarrow> error option"
  valsHash :: "ValidatorSet \<Rightarrow> bytes"
  blockHash :: "Block \<Rightarrow> bytes"
  makePartSet :: "Block \<Rightarrow> error + PartSet"
  loadBlock :: "int64 \<Rightarrow> Block option"
  loadBlockCommit :: "int64 \<Rightarrow> Commit option"
  applyBlock :: "State \<Rightarrow> BlockID \<Rightarrow> Block \<Rightarrow> error + State"
  redoRequest :: "int64 \<Rightarrow> NodeID"
  sendError :: "PeerError \<Rightarrow> error option"
  send :: "Envelope \<Rightarrow> error option"
  loadBlockProto :: "int64 \<Rightarrow> BlockProto option call"
  loadBlockCommitProto :: "int64 \<Rightarrow> CommitProto option call"
  blockFromProto :: "BlockProto option \<Rightarrow> error + Block"
  commitFromProto :: "CommitProto option \<Rightarrow> error + Commit"
  blockSize :: "Block \<Rightarrow> int"
  storeHeight :: int64
  storeBase :: int64

text \<open>
  The fields of \<^verbatim>\<open>Reactor\<close> that the routines below read or write. \<open>consReactor\<close> is
  whether the interface value is non-nil; \<open>blockSync\<close> is the atomic flag.
\<close>

record Reactor =
  initialState :: State
  lastTrustedBlock :: "BlockResponse option"
  blockSync :: bool
  consReactor :: bool
  trace :: "event list"

definition emit :: "event \<Rightarrow> Reactor \<Rightarrow> Reactor" where
  "emit e r = r\<lparr>trace := trace r @ [e]\<rparr>"

text \<open>What a routine added to the trace.\<close>

definition emitted :: "Reactor \<Rightarrow> Reactor \<Rightarrow> event list" where
  "emitted r r' = drop (length (trace r)) (trace r')"

subsection \<open>Serving a block request\<close>

text \<open>The envelope \<^verbatim>\<open>p2p.Envelope{To: peerID, Message: m}\<close>; the other fields are zero.\<close>

definition envelopeTo :: "NodeID \<Rightarrow> ProtoMessage \<Rightarrow> Envelope" where
  "envelopeTo peerID m = \<lparr>From = [], To = peerID, Broadcast = False, Message = m\<rparr>"

definition respondToPeer :: "Env \<Rightarrow> BlockRequest \<Rightarrow> NodeID \<Rightarrow> Reactor \<Rightarrow> error option call \<times> Reactor" where
  "respondToPeer env msg peerID r =
    (let noBlock = envelopeTo peerID (MsgNoBlockResponse (NoBlockResponse (reqHeight msg))) in
     case loadBlockProto env (reqHeight msg) of
       Panics p \<Rightarrow> (Panics p, r)
     | Returns None \<Rightarrow> (Returns (send env noBlock), emit (Send noBlock) r)
     | Returns (Some blk) \<Rightarrow>
        (case loadBlockCommitProto env (reqHeight msg) of
           Panics p \<Rightarrow> (Panics p, r)
         | Returns None \<Rightarrow> (Returns (send env noBlock), emit (Send noBlock) r)
         | Returns (Some blockCommit) \<Rightarrow>
            (let resp = envelopeTo peerID (MsgBlockResponse (Some blk) (Some blockCommit))
             in (Returns (send env resp), emit (Send resp) r))))"

subsection \<open>Handling an envelope\<close>

definition handleBlockSyncMessage :: "Env \<Rightarrow> Envelope \<Rightarrow> Reactor \<Rightarrow> error option call \<times> Reactor" where
  "handleBlockSyncMessage env envelope r =
    (case Message envelope of
       MsgBlockRequest msg \<Rightarrow> respondToPeer env msg (From envelope) r
     | MsgBlockResponse pb pc \<Rightarrow>
        (case blockFromProto env pb of
           Inl err \<Rightarrow> (Returns (Some err), r)
         | Inr blk \<Rightarrow>
            (case commitFromProto env pc of
               Inl err \<Rightarrow> (Returns (Some err), r)
             | Inr cmt \<Rightarrow>
                (Returns None,
                 emit (AddBlock (From envelope) \<lparr>block = Some blk, commit = Some cmt\<rparr>
                         (blockSize env blk)) r)))
     | MsgStatusRequest q \<Rightarrow>
        (let resp = envelopeTo (From envelope)
                      (MsgStatusResponse (StatusResponse (storeHeight env) (storeBase env)))
         in (Returns (send env resp), emit (Send resp) r))
     | MsgStatusResponse msg \<Rightarrow>
        (Returns None, emit (SetPeerRange (From envelope) (statusBase msg) (statusHeight msg)) r)
     | MsgNoBlockResponse msg \<Rightarrow> (Returns None, r)
     | MsgOther ty \<Rightarrow>
        (Returns (Some (ErrorString ''received unknown message: %T'' [ArgString ty])), r))"

text \<open>
  \<^verbatim>\<open>handleMessage\<close>: the deferred function recovers a panic of the body and makes it the
  returned error.
\<close>

definition handleMessage :: "Env \<Rightarrow> nat \<Rightarrow> Envelope \<Rightarrow> Reactor \<Rightarrow> error option \<times> Reactor" where
  "handleMessage env chID envelope r =
    (case (if chID = BlockSyncChannel then handleBlockSyncMessage env envelope r
           else (Returns (Some (ErrorString ''unknown channel ID (%d) for envelope (%v)''
                   [ArgInt (int chID), ArgOpaque ''envelope''])), r)) of
       (Panics e, r') \<Rightarrow>
         (Some (ErrorString ''panic in processing message: %v'' [ArgPanic e]), r')
     | (Returns err, r') \<Rightarrow> (err, r'))"

text \<open>
  \<^verbatim>\<open>errors.Is\<close> against one of the context sentinels: the error itself, or one it wraps
  with \<^verbatim>\<open>%w\<close>.
\<close>

fun errors_Is :: "error \<Rightarrow> error \<Rightarrow> bool" where
  "errors_Is (WrapError f as e) target = (WrapError f as e = target \<or> errors_Is e target)"
| "errors_Is e target = (e = target)"

text \<open>
  \<^verbatim>\<open>processBlockSyncCh\<close> over the envelopes the channel delivers, until the iterator ends
  or the routine returns.
\<close>

fun processBlockSyncCh :: "Env \<Rightarrow> Envelope list \<Rightarrow> Reactor \<Rightarrow> Reactor" where
  "processBlockSyncCh env [] r = r"
| "processBlockSyncCh env (envelope # rest) r =
    (case handleMessage env BlockSyncChannel envelope r of
       (None, r') \<Rightarrow> processBlockSyncCh env rest r'
     | (Some err, r') \<Rightarrow>
         if errors_Is err Canceled \<or> errors_Is err DeadlineExceeded then r'
         else (let pe = \<lparr>NodeID = From envelope, Err = err\<rparr>; r'' = emit (SendError pe) r' in
               case sendError env pe of
                 Some serr \<Rightarrow> r''
               | None \<Rightarrow> processBlockSyncCh env rest r''))"

subsection \<open>The driver loop\<close>

text \<open>
  The local variables of \<^verbatim>\<open>poolRoutine\<close> that decide what it does; \<open>didProcessCh\<close> is
  the number of signals in the channel of capacity 1. The sync-rate statistics
  (\<^verbatim>\<open>lastHundred\<close>, \<^verbatim>\<open>lastRate\<close>) only feed a log line and are left out.
\<close>

record Locals =
  state :: State
  blocksSynced :: "64 word"
  stateSynced :: bool
  didProcessCh :: nat

datatype 'a outcome = Continue 'a | Return 'a | Panic panicval 'a

text \<open>
  The arm of the switch-to-consensus ticker. The pool's answers (\<^verbatim>\<open>IsCaughtUp\<close>,
  \<^verbatim>\<open>LastAdvance\<close>) and the clock are inputs of the tick; \<^verbatim>\<open>time.Since\<close> is the difference
  to the clock.
\<close>

definition switchToConsensusTick ::
  "bool \<Rightarrow> Time \<Rightarrow> Time \<Rightarrow> Reactor \<times> Locals \<Rightarrow> (Reactor \<times> Locals) outcome" where
  "switchToConsensusTick isCaughtUp lastAdvance now s =
    (case s of (r, l) \<Rightarrow>
      if \<not> isCaughtUp \<and> \<not> (now - lastAdvance > syncTimeout) then Continue (r, l)
      else
        (let r1 = emit PoolStop r;
             r2 = r1\<lparr>blockSync := False\<rparr>;
             r3 = (if consReactor r2
                   then emit (SwitchToConsensus (state l) (blocksSynced l > 0 \<or> stateSynced l)) r2
                   else r2)
         in Return (r3, l)))"

text \<open>
  The tail of the block arm: the block becomes the trusted one, its request is popped, it
  is saved and applied. A failure of \<^verbatim>\<open>ApplyBlock\<close> is a panic.
\<close>

definition commitBlock ::
  "Env \<Rightarrow> BlockResponse \<Rightarrow> Block \<Rightarrow> PartSet \<Rightarrow> BlockID \<Rightarrow> Reactor \<times> Locals \<Rightarrow>
   (Reactor \<times> Locals) outcome" where
  "commitBlock env newBlock b newBlockParts newBlockID s =
    (case s of (r, l) \<Rightarrow>
      (let r1 = r\<lparr>lastTrustedBlock := Some newBlock\<rparr>;
           r2 = emit PopRequest r1;
           r3 = emit (SaveBlock b newBlockParts (commit newBlock)) r2;
           r4 = emit (ApplyBlock (state l) newBlockID b) r3
       in case applyBlock env (state l) newBlockID b of
            Inl err \<Rightarrow>
              Panic (PanicString ''failed to process committed block (%d:%X): %v'') (r4, l)
          | Inr state' \<Rightarrow>
              Continue (emit (RecordConsMetrics b) r4,
                        l\<lparr>state := state', blocksSynced := blocksSynced l + 1\<rparr>)))"

text \<open>
  The arm that processes the block the pool offers (\<open>peek\<close> is what \<^verbatim>\<open>PeekBlock\<close>
  returned). When the peeked response holds no block, every path dereferences the nil
  pointer before any effect, which is a runtime panic.
\<close>

definition processBlock ::
  "Env \<Rightarrow> BlockResponse option \<Rightarrow> Reactor \<times> Locals \<Rightarrow> (Reactor \<times> Locals) outcome" where
  "processBlock env peek s =
    (case s of (r0, l0) \<Rightarrow>
     (case peek of
       None \<Rightarrow> Continue (r0, l0)
     | Some newBlock \<Rightarrow>
      (let l = l0\<lparr>didProcessCh := didProcessCh l0 + 1\<rparr>;
           h = LastBlockHeight (initialState r0);
           load = (lastTrustedBlock r0 = None \<and> h \<noteq> 0);
           r = (if load
                then r0\<lparr>lastTrustedBlock :=
                          Some \<lparr>block = loadBlock env h, commit = loadBlockCommit env h\<rparr>\<rparr>
                else r0)
       in
       if load \<and> lastTrustedBlock r = None then
         Panic (PanicString ''Failed to load last trusted block'') (r, l)
       else case block newBlock of
         None \<Rightarrow> Panic (RuntimeError ''invalid memory address or nil pointer dereference'') (r, l)
       | Some b \<Rightarrow>
         (case makePartSet env b of
            Inl err2 \<Rightarrow> Return (r, l)
          | Inr newBlockParts \<Rightarrow>
            (let newBlockID = \<lparr>Hash = blockHash env b,
                                PartSetHeader = partsHeader newBlockParts\<rparr> in
             case (case lastTrustedBlock r of None \<Rightarrow> None | Some lt \<Rightarrow> block lt) of
               Some tb \<Rightarrow>
                 if Height (bHeader b) \<noteq> Height (bHeader tb) + 1 then
                   Panic (PanicString ''Need last block'') (r, l)
                 else
                   (case VerifyAdjacent (validateBasic env) (valsHash env)
                           \<lparr>shHeader = bHeader tb, shCommit = commit (the (lastTrustedBlock r))\<rparr>
                           \<lparr>shHeader = bHeader b, shCommit = commit newBlock\<rparr>
                           (NextValidators (state l)) of
                      None \<Rightarrow> commitBlock env newBlock b newBlockParts newBlockID (r, l)
                    | Some err0 \<Rightarrow>
                      (let err = WrapError ''invalid last commit: %w'' [] err0;
                           peerID = redoRequest env (Height (bHeader tb) + 1);
                           r1 = emit (RedoRequest (Height (bHeader tb) + 1)) r;
                           pe = \<lparr>NodeID = peerID, Err = err\<rparr>;
                           r2 = emit (SendError pe) r1
                       in case sendError env pe of
                            Some serr \<Rightarrow> Return (r2, l)
                          | None \<Rightarrow> commitBlock env newBlock b newBlockParts newBlockID (r2, l)))
             | None \<Rightarrow>
                 if valsHash env (Validators (initialState r)) \<noteq> ValidatorsHash (bHeader b)
                 then Return (r, l)
                 else commitBlock env newBlock b newBlockParts newBlockID (r, l))))))"

text \<open>
  One turn of the \<^verbatim>\<open>select\<close> of \<^verbatim>\<open>poolRoutine\<close>, by the case that fires, and the loop
  over the cases that fire in turn.
\<close>

datatype input =
    CtxDone
  | SwitchToConsensusTicker bool Time Time
  | TrySyncTicker
  | DidProcess "BlockResponse option"

fun poolRoutine_step :: "Env \<Rightarrow> input \<Rightarrow> Reactor \<times> Locals \<Rightarrow> (Reactor \<times> Locals) outcome" where
  "poolRoutine_step env CtxDone s = Return s"
| "poolRoutine_step env (SwitchToConsensusTicker isCaughtUp lastAdvance now) s =
     switchToConsensusTick isCaughtUp lastAdvance now s"
| "poolRoutine_step env TrySyncTicker (r, l) =
     Continue (r, if didProcessCh l < 1 then l\<lparr>didProcessCh := 1\<rparr> else l)"
| "poolRoutine_step env (DidProcess peek) (r, l) =
     (if didProcessCh l = 0 then Continue (r, l)
      else processBlock env peek (r, l\<lparr>didProcessCh := didProcessCh l - 1\<rparr>))"

fun poolRoutine :: "Env \<Rightarrow> input list \<Rightarrow> Reactor \<times> Locals \<Rightarrow> (Reactor \<times> Locals) outcome" where
  "poolRoutine env [] s = Continue s"
| "poolRoutine env (i # rest) s =
    (case poolRoutine_step env i s of
       Continue s' \<Rightarrow> poolRoutine env rest s'
     | Return s' \<Rightarrow> Return s'
     | Panic p s' \<Rightarrow> Panic p s')"

subsection \<open>Sample inputs\<close>

text \<open>
  A trusted block at height 1, a valid successor, and a successor whose validators hash
  matches neither the supplied validator set nor the trusted block's next validators
  (scenario S4 of the specification). The sample environment hashes a validator set to
  the one byte of its handle, accepts every header, and lets every call succeed; its store
  holds a block and a commit at height 1, only a block at height 2, and panics when asked
  for height 7.
\<close>

definition sampleHeader1 :: Header where
  "sampleHeader1 = \<lparr>ChainID = ''test-chain'', Height = 1, Time = 100,
                     ValidatorsHash = [1], NextValidatorsHash = [2]\<rparr>"

definition sampleHeader2 :: Header where
  "sampleHeader2 = \<lparr>ChainID = ''test-chain'', Height = 2, Time = 200,
                     ValidatorsHash = [2], NextValidatorsHash = [3]\<rparr>"

definition sampleHeader2Bad :: Header where
  "sampleHeader2Bad = \<lparr>ChainID = ''test-chain'', Height = 2, Time = 200,
                        ValidatorsHash = [9], NextValidatorsHash = [3]\<rparr>"

definition sampleResponse :: "Header \<Rightarrow> BlockResponse" where
  "sampleResponse h = \<lparr>block = Some \<lparr>bHeader = h, LastCommit = None\<rparr>,
                        commit = Some (Commit (unat (Height h)))\<rparr>"

definition sampleState :: State where
  "sampleState = \<lparr>InitialHeight = 1, LastBlockHeight = 0,
                   Validators = ValidatorSet 1, NextValidators = ValidatorSet 2\<rparr>"

definition sampleParts :: PartSet where
  "sampleParts = PartSet \<lparr>Total = 1, partsHash = [0xCD]\<rparr>"

definition sampleEnv :: Env where
  "sampleEnv =
    \<lparr> validateBasic = (\<lambda>h c. None),
      valsHash = (\<lambda>v. case v of ValidatorSet n \<Rightarrow> [of_nat n]),
      blockHash = (\<lambda>b. [0xAB]),
      makePartSet = (\<lambda>b. Inr sampleParts),
      loadBlock = (\<lambda>h. None),
      loadBlockCommit = (\<lambda>h. None),
      applyBlock = (\<lambda>s i b. Inr (s\<lparr>LastBlockHeight := Height (bHeader b)\<rparr>)),
      redoRequest = (\<lambda>h. ''peerA''),
      sendError = (\<lambda>e. None),
      send = (\<lambda>e. None),
      loadBlockProto = (\<lambda>h. if h = 7 then Panics (PanicString ''corrupted block store'')
                            else if h = 1 \<or> h = 2 then Returns (Some (BlockProto (unat h)))
                            else Returns None),
      loadBlockCommitProto = (\<lambda>h. if h = 1 then Returns (Some (CommitProto 1))
                                  else Returns None),
      blockFromProto = (\<lambda>p. Inl (ErrorString ''nil block'' [])),
      commitFromProto = (\<lambda>p. Inl (ErrorString ''nil Commit'' [])),
      blockSize = (\<lambda>b. 0),
      storeHeight = 2,
      storeBase = 1 \<rparr>"

definition sampleReactor :: "BlockResponse option \<Rightarrow> bool \<Rightarrow> Reactor" where
  "sampleReactor trusted cons =
    \<lparr> initialState = sampleState, lastTrustedBlock = trusted, blockSync = True,
      consReactor = cons, trace = [] \<rparr>"

definition sampleLocals :: Locals where
  "sampleLocals = \<lparr>state = sampleState, blocksSynced = 0, stateSynced = False,
                    didProcessCh = 0\<rparr>"

text \<open>The state an outcome carries.\<close>

fun outcome_state :: "'a outcome \<Rightarrow> 'a" where
  "outcome_state (Continue s) = s"
| "outcome_state (Return s) = s"
| "outcome_state (Panic p s) = s"

section \<open>The wire codec\<close>

text \<open>
  The generated codec of \<^verbatim>\<open>cometbft/blocksync/v2/types.proto\<close>. A \<^verbatim>\<open>uint64\<close> is a natural
  number below \<open>2 ^ 64\<close>, with the truncation written out where a shift can overflow; an
  index into a buffer is a natural number, and an \<^verbatim>\<open>int\<close> that can go below zero before
  it is used as an index is an \<open>int\<close>. Out-of-range indexing and slicing panic.
\<close>

subsection \<open>Messages\<close>

text \<open>
  The messages of package \<^verbatim>\<open>v1\<close> (\<open>BlockRequest\<close>, \<open>NoBlockResponse\<close>, \<open>StatusRequest\<close>,
  \<open>StatusResponse\<close>) and \<^verbatim>\<open>v3\<close> (the protobuf block and extended commit) are declared and
  encoded by the generated files of those packages. Each comes with a codec, a
  parameter: \<open>msgSize\<close> is its \<^verbatim>\<open>Size()\<close>, \<open>msgMarshal\<close> the bytes its
  \<^verbatim>\<open>MarshalToSizedBuffer\<close> writes (or its error), \<open>msgUnmarshal\<close> its \<^verbatim>\<open>Unmarshal\<close> into a
  receiver, \<open>msgZero\<close> the zero value \<^verbatim>\<open>&T{}\<close>.
\<close>

datatype ExtendedCommitProto = ExtendedCommitProto nat

record 'a codec =
  msgSize :: "'a \<Rightarrow> nat"
  msgMarshal :: "'a \<Rightarrow> error + bytes"
  msgUnmarshal :: "'a \<Rightarrow> bytes \<Rightarrow> error + 'a"
  msgZero :: 'a

record Codecs =
  cBlockRequest :: "BlockRequest codec"
  cNoBlockResponse :: "NoBlockResponse codec"
  cStatusRequest :: "StatusRequest codec"
  cStatusResponse :: "StatusResponse codec"
  cBlock :: "BlockProto codec"
  cExtCommit :: "ExtendedCommitProto codec"

text \<open>The two messages this file declares: \<^verbatim>\<open>BlockResponse\<close> and \<^verbatim>\<open>Message\<close> with its oneof.\<close>

record BlockResponseV2 =
  Block :: "BlockProto option"
  ExtCommit :: "ExtendedCommitProto option"

datatype isMessage_Sum =
    Message_BlockRequest "BlockRequest option"
  | Message_NoBlockResponse "NoBlockResponse option"
  | Message_BlockResponse "BlockResponseV2 option"
  | Message_StatusRequest "StatusRequest option"
  | Message_StatusResponse "StatusResponse option"

record Message =
  Sum :: "isMessage_Sum option"

definition ErrInvalidLengthTypes :: error where
  "ErrInvalidLengthTypes = ErrorString ''proto: negative length found during unmarshaling'' []"

definition ErrIntOverflowTypes :: error where
  "ErrIntOverflowTypes = ErrorString ''proto: integer overflow'' []"

definition ErrUnexpectedEndOfGroupTypes :: error where
  "ErrUnexpectedEndOfGroupTypes = ErrorString ''proto: unexpected end of group'' []"

definition ErrUnexpectedEOF :: error where
  "ErrUnexpectedEOF = ErrorString ''unexpected EOF'' []"

definition indexOutOfRange :: panicval where
  "indexOutOfRange = RuntimeError ''index out of range''"

definition sliceOutOfRange :: panicval where
  "sliceOutOfRange = RuntimeError ''slice bounds out of range''"

subsection \<open>Sizes\<close>

text \<open>\<^verbatim>\<open>math/bits.Len64\<close>: the number of bits needed to write \<open>x\<close>, 0 for 0.\<close>

function Len64 :: "nat \<Rightarrow> nat" where
  "Len64 x = (if x = 0 then 0 else Suc (Len64 (x div 2)))"
  by pat_completeness auto
termination
  by (relation "measure id") auto

declare Len64.simps [simp del]

definition sovTypes :: "nat \<Rightarrow> nat" where
  "sovTypes x = (Len64 (x OR 1) + 6) div 7"

text \<open>
  The size of a field: \<^verbatim>\<open>1 + l + sovTypes(uint64(l))\<close> for a present message of size
  \<open>l\<close>, nothing for a nil one.
\<close>

definition fieldSize :: "'a codec \<Rightarrow> 'a option \<Rightarrow> nat" where
  "fieldSize c v = (case v of None \<Rightarrow> 0 | Some x \<Rightarrow> 1 + msgSize c x + sovTypes (msgSize c x))"

definition BlockResponse_Size :: "Codecs \<Rightarrow> BlockResponseV2 option \<Rightarrow> nat" where
  "BlockResponse_Size C m =
    (case m of None \<Rightarrow> 0
     | Some r \<Rightarrow> fieldSize (cBlock C) (Block r) + fieldSize (cExtCommit C) (ExtCommit r))"

fun Sum_Size :: "Codecs \<Rightarrow> isMessage_Sum \<Rightarrow> nat" where
  "Sum_Size C (Message_BlockRequest v) = fieldSize (cBlockRequest C) v"
| "Sum_Size C (Message_NoBlockResponse v) = fieldSize (cNoBlockResponse C) v"
| "Sum_Size C (Message_BlockResponse v) =
     (case v of None \<Rightarrow> 0
      | Some r \<Rightarrow> 1 + BlockResponse_Size C (Some r) + sovTypes (BlockResponse_Size C (Some r)))"
| "Sum_Size C (Message_StatusRequest v) = fieldSize (cStatusRequest C) v"
| "Sum_Size C (Message_StatusResponse v) = fieldSize (cStatusResponse C) v"

definition Message_Size :: "Codecs \<Rightarrow> Message \<Rightarrow> nat" where
  "Message_Size C m = (case Sum m of None \<Rightarrow> 0 | Some s \<Rightarrow> Sum_Size C s)"

subsection \<open>Marshalling\<close>

text \<open>
  The loop of \<^verbatim>\<open>encodeVarintTypes\<close>, writing \<open>v\<close> from \<open>offset\<close> upwards, and the function
  itself, which starts \<open>sovTypes v\<close> below the offset it is given and returns where it
  started.
\<close>

function putVarint :: "bytes \<Rightarrow> nat \<Rightarrow> nat \<Rightarrow> bytes call" where
  "putVarint dAtA offset v =
    (if v \<ge> 128 then
       (if offset < length dAtA
        then putVarint (dAtA[offset := of_nat ((v AND 0x7f) OR 0x80)]) (offset + 1) (drop_bit 7 v)
        else Panics indexOutOfRange)
     else if offset < length dAtA then Returns (dAtA[offset := of_nat v])
     else Panics indexOutOfRange)"
  by pat_completeness auto
termination
  by (relation "measure (\<lambda>(d, off, v). v)") (auto simp: drop_bit_eq_div)

declare putVarint.simps [simp del]

definition encodeVarintTypes :: "bytes \<Rightarrow> int \<Rightarrow> nat \<Rightarrow> (bytes \<times> int) call" where
  "encodeVarintTypes dAtA offset v =
    (let base = offset - int (sovTypes v) in
     if base < 0 then Panics indexOutOfRange
     else case putVarint dAtA (nat base) v of
            Panics p \<Rightarrow> Panics p
          | Returns d \<Rightarrow> Returns (d, base))"

text \<open>
  A \<^verbatim>\<open>MarshalToSizedBuffer\<close> takes a slice and returns the slice as it left it with the
  number of bytes it wrote at its end, or an error. For a message with a parameter codec
  these are the bytes of \<open>msgMarshal\<close>; when the slice is too short for them the write
  panics.
\<close>

type_synonym sizedWriter = "bytes \<Rightarrow> (error + bytes \<times> int) call"

definition msgMarshalToSizedBuffer :: "'a codec \<Rightarrow> 'a \<Rightarrow> sizedWriter" where
  "msgMarshalToSizedBuffer c v dAtA =
    (case msgMarshal c v of
       Inl err \<Rightarrow> Returns (Inl err)
     | Inr bs \<Rightarrow>
        if length bs > length dAtA then Panics indexOutOfRange
        else Returns (Inr (take (length dAtA - length bs) dAtA @ bs, int (length bs))))"

text \<open>
  The block that every field repeats: marshal the inner message into \<^verbatim>\<open>dAtA[:i]\<close>,
  step \<open>i\<close> down by its size \<open>n\<close>, write the size as a varint below it, and the tag byte
  below that. It returns the buffer and the new \<open>i\<close>.
\<close>

definition putField :: "byte \<Rightarrow> sizedWriter \<Rightarrow> bytes \<Rightarrow> int \<Rightarrow> (error + bytes \<times> int) call" where
  "putField tag inner dAtA i =
    (if i < 0 \<or> i > int (length dAtA) then Panics sliceOutOfRange
     else case inner (take (nat i) dAtA) of
       Panics p \<Rightarrow> Panics p
     | Returns (Inl err) \<Rightarrow> Returns (Inl err)
     | Returns (Inr (sub, n)) \<Rightarrow>
        (case encodeVarintTypes (sub @ drop (nat i) dAtA) (i - n) (nat n) of
           Panics p \<Rightarrow> Panics p
         | Returns (d, i') \<Rightarrow>
            if i' - 1 < 0 \<or> i' - 1 \<ge> int (length d) then Panics indexOutOfRange
            else Returns (Inr (d[nat (i' - 1) := tag], i' - 1))))"

definition BlockResponse_MarshalToSizedBuffer :: "Codecs \<Rightarrow> BlockResponseV2 \<Rightarrow> sizedWriter" where
  "BlockResponse_MarshalToSizedBuffer C m dAtA =
    (case (case ExtCommit m of
             None \<Rightarrow> Returns (Inr (dAtA, int (length dAtA)))
           | Some ec \<Rightarrow> putField 0x12 (msgMarshalToSizedBuffer (cExtCommit C) ec) dAtA
                          (int (length dAtA))) of
       Panics p \<Rightarrow> Panics p
     | Returns (Inl err) \<Rightarrow> Returns (Inl err)
     | Returns (Inr (d1, i1)) \<Rightarrow>
        (case (case Block m of
                 None \<Rightarrow> Returns (Inr (d1, i1))
               | Some b \<Rightarrow> putField 0xa (msgMarshalToSizedBuffer (cBlock C) b) d1 i1) of
           Panics p \<Rightarrow> Panics p
         | Returns (Inl err) \<Rightarrow> Returns (Inl err)
         | Returns (Inr (d2, i2)) \<Rightarrow> Returns (Inr (d2, int (length dAtA) - i2))))"

text \<open>
  The \<^verbatim>\<open>MarshalToSizedBuffer\<close> of the five oneof wrappers: one field with the wrapper's
  tag when the wrapped pointer is not nil, nothing otherwise.
\<close>

definition wrapperMarshal :: "byte \<Rightarrow> sizedWriter option \<Rightarrow> sizedWriter" where
  "wrapperMarshal tag inner dAtA =
    (case inner of
       None \<Rightarrow> Returns (Inr (dAtA, 0))
     | Some w \<Rightarrow>
        (case putField tag w dAtA (int (length dAtA)) of
           Panics p \<Rightarrow> Panics p
         | Returns (Inl err) \<Rightarrow> Returns (Inl err)
         | Returns (Inr (d, i)) \<Rightarrow> Returns (Inr (d, int (length dAtA) - i))))"

fun Sum_MarshalToSizedBuffer :: "Codecs \<Rightarrow> isMessage_Sum \<Rightarrow> sizedWriter" where
  "Sum_MarshalToSizedBuffer C (Message_BlockRequest v) =
     wrapperMarshal 0xa (map_option (msgMarshalToSizedBuffer (cBlockRequest C)) v)"
| "Sum_MarshalToSizedBuffer C (Message_NoBlockResponse v) =
     wrapperMarshal 0x12 (map_option (msgMarshalToSizedBuffer (cNoBlockResponse C)) v)"
| "Sum_MarshalToSizedBuffer C (Message_BlockResponse v) =
     wrapperMarshal 0x1a (map_option (BlockResponse_MarshalToSizedBuffer C) v)"
| "Sum_MarshalToSizedBuffer C (Message_StatusRequest v) =
     wrapperMarshal 0x22 (map_option (msgMarshalToSizedBuffer (cStatusRequest C)) v)"
| "Sum_MarshalToSizedBuffer C (Message_StatusResponse v) =
     wrapperMarshal 0x2a (map_option (msgMarshalToSizedBuffer (cStatusResponse C)) v)"

text \<open>
  \<^verbatim>\<open>MarshalTo\<close> of a wrapper marshals into the first \<^verbatim>\<open>Size()\<close> bytes of the slice it is
  given.
\<close>

definition Sum_MarshalTo :: "Codecs \<Rightarrow> isMessage_Sum \<Rightarrow> sizedWriter" where
  "Sum_MarshalTo C s dAtA =
    (let sz = Sum_Size C s in
     if sz > length dAtA then Panics sliceOutOfRange
     else case Sum_MarshalToSizedBuffer C s (take sz dAtA) of
       Panics p \<Rightarrow> Panics p
     | Returns (Inl err) \<Rightarrow> Returns (Inl err)
     | Returns (Inr (sub, n)) \<Rightarrow> Returns (Inr (sub @ drop sz dAtA, n)))"

text \<open>
  \<^verbatim>\<open>Message.MarshalToSizedBuffer\<close> hands \<^verbatim>\<open>dAtA[i:]\<close> to the wrapper's \<^verbatim>\<open>MarshalTo\<close>,
  with \<open>i\<close> the length less the wrapper's size, and returns that size whatever the
  wrapper wrote.
\<close>

definition Message_MarshalToSizedBuffer :: "Codecs \<Rightarrow> Message \<Rightarrow> sizedWriter" where
  "Message_MarshalToSizedBuffer C m dAtA =
    (case Sum m of
       None \<Rightarrow> Returns (Inr (dAtA, 0))
     | Some s \<Rightarrow>
        (let i = int (length dAtA) - int (Sum_Size C s) in
         if i < 0 then Panics sliceOutOfRange
         else case Sum_MarshalTo C s (drop (nat i) dAtA) of
           Panics p \<Rightarrow> Panics p
         | Returns (Inl err) \<Rightarrow> Returns (Inl err)
         | Returns (Inr (sub, n)) \<Rightarrow>
             Returns (Inr (take (nat i) dAtA @ sub, int (length dAtA) - i))))"

text \<open>\<^verbatim>\<open>Message.Marshal\<close>: a fresh buffer of \<^verbatim>\<open>Size()\<close> bytes, and its first \<open>n\<close> bytes.\<close>

definition Message_Marshal :: "Codecs \<Rightarrow> Message \<Rightarrow> (error + bytes) call" where
  "Message_Marshal C m =
    (let sz = Message_Size C m; dAtA = replicate sz 0 in
     case Message_MarshalToSizedBuffer C m dAtA of
       Panics p \<Rightarrow> Panics p
     | Returns (Inl err) \<Rightarrow> Returns (Inl err)
     | Returns (Inr (d, n)) \<Rightarrow>
         if n < 0 \<or> n > int (length d) then Panics sliceOutOfRange
         else Returns (Inr (take (nat n) d)))"

subsection \<open>Unmarshalling\<close>

text \<open>
  The varint loop that the decoders repeat, from \<open>shift\<close> and the bits read so far. The
  source runs it on a \<^verbatim>\<open>uint64\<close> (a tag) and on an \<^verbatim>\<open>int\<close> (a length): the bits are the
  same, and the \<^verbatim>\<open>int\<close> is negative when its bit 63 is set.
\<close>

function decodeVarint :: "bytes \<Rightarrow> nat \<Rightarrow> nat \<Rightarrow> nat \<Rightarrow> error + nat \<times> nat" where
  "decodeVarint dAtA iNdEx shift wire =
    (if shift \<ge> 64 then Inl ErrIntOverflowTypes
     else if iNdEx \<ge> length dAtA then Inl ErrUnexpectedEOF
     else if dAtA ! iNdEx < 0x80
       then Inr (wire OR (push_bit shift (unat (dAtA ! iNdEx AND 0x7F)) mod 2 ^ 64), iNdEx + 1)
       else decodeVarint dAtA (iNdEx + 1) (shift + 7)
              (wire OR (push_bit shift (unat (dAtA ! iNdEx AND 0x7F)) mod 2 ^ 64)))"
  by pat_completeness auto
termination
  by (relation "measure (\<lambda>(d, i, shift, w). 64 - shift)") auto

declare decodeVarint.simps [simp del]

text \<open>\<^verbatim>\<open>int32(wire >> 3)\<close>: the low 32 bits, read as two's complement.\<close>

definition int32 :: "nat \<Rightarrow> int" where
  "int32 x = (if x mod 2 ^ 32 \<ge> 2 ^ 31 then int (x mod 2 ^ 32) - 2 ^ 32 else int (x mod 2 ^ 32))"

text \<open>
  The head of an iteration of an \<^verbatim>\<open>Unmarshal\<close> loop: the tag, split into field number
  and wire type, with the two checks on them. \<open>name\<close> is the message named in the errors.
\<close>

definition readTag :: "string \<Rightarrow> bytes \<Rightarrow> nat \<Rightarrow> error + int \<times> nat \<times> nat" where
  "readTag name dAtA iNdEx =
    (case decodeVarint dAtA iNdEx 0 0 of
       Inl err \<Rightarrow> Inl err
     | Inr (wire, i1) \<Rightarrow>
        (let fieldNum = int32 (drop_bit 3 wire); wireType = wire AND 0x7 in
         if wireType = 4 then
           Inl (ErrorString (''proto: '' @ name @ '': wiretype end group for non-group'') [])
         else if fieldNum \<le> 0 then
           Inl (ErrorString (''proto: '' @ name @ '': illegal tag %d (wire type %d)'')
                  [ArgInt fieldNum, ArgInt (int wire)])
         else Inr (fieldNum, wireType, i1)))"

text \<open>
  The body of a length-delimited field: the length, the checks on it, and the bounds
  \<^verbatim>\<open>iNdEx\<close> and \<^verbatim>\<open>postIndex\<close> of the bytes of the inner message. Sums of indices wrap
  to a negative \<^verbatim>\<open>int\<close> from \<open>2 ^ 63\<close> on.
\<close>

definition readLengthDelimited :: "bytes \<Rightarrow> nat \<Rightarrow> error + nat \<times> nat" where
  "readLengthDelimited dAtA iNdEx =
    (case decodeVarint dAtA iNdEx 0 0 of
       Inl err \<Rightarrow> Inl err
     | Inr (msglen, i1) \<Rightarrow>
        if msglen \<ge> 2 ^ 63 then Inl ErrInvalidLengthTypes
        else if i1 + msglen \<ge> 2 ^ 63 then Inl ErrInvalidLengthTypes
        else if i1 + msglen > length dAtA then Inl ErrUnexpectedEOF
        else Inr (i1, i1 + msglen))"

definition slice :: "bytes \<Rightarrow> nat \<Rightarrow> nat \<Rightarrow> bytes" where
  "slice dAtA lo hi = take (hi - lo) (drop lo dAtA)"

text \<open>\<^verbatim>\<open>skipTypes\<close>: the loop that passes over a varint, one turn of its main loop, and the loop.\<close>

function skipVarint :: "bytes \<Rightarrow> nat \<Rightarrow> nat \<Rightarrow> error + nat" where
  "skipVarint dAtA iNdEx shift =
    (if shift \<ge> 64 then Inl ErrIntOverflowTypes
     else if iNdEx \<ge> length dAtA then Inl ErrUnexpectedEOF
     else if dAtA ! iNdEx < 0x80 then Inr (iNdEx + 1)
     else skipVarint dAtA (iNdEx + 1) (shift + 7))"
  by pat_completeness auto
termination
  by (relation "measure (\<lambda>(d, i, shift). 64 - shift)") auto

declare skipVarint.simps [simp del]

definition skipSwitch :: "nat \<Rightarrow> bytes \<Rightarrow> nat \<Rightarrow> nat \<Rightarrow> error + nat \<times> nat" where
  "skipSwitch wireType dAtA iNdEx depth =
    (if wireType = 0 then
       (case skipVarint dAtA iNdEx 0 of Inl err \<Rightarrow> Inl err | Inr i' \<Rightarrow> Inr (i', depth))
     else if wireType = 1 then Inr (iNdEx + 8, depth)
     else if wireType = 2 then
       (case decodeVarint dAtA iNdEx 0 0 of
          Inl err \<Rightarrow> Inl err
        | Inr (len, i') \<Rightarrow>
           if len \<ge> 2 ^ 63 then Inl ErrInvalidLengthTypes else Inr (i' + len, depth))
     else if wireType = 3 then Inr (iNdEx, depth + 1)
     else if wireType = 4 then
       (if depth = 0 then Inl ErrUnexpectedEndOfGroupTypes else Inr (iNdEx, depth - 1))
     else if wireType = 5 then Inr (iNdEx + 4, depth)
     else Inl (ErrorString ''proto: illegal wireType %d'' [ArgInt (int wireType)]))"

definition skipStep :: "bytes \<Rightarrow> nat \<Rightarrow> nat \<Rightarrow> error + nat \<times> nat" where
  "skipStep dAtA iNdEx depth =
    (case decodeVarint dAtA iNdEx 0 0 of
       Inl err \<Rightarrow> Inl err
     | Inr (wire, i1) \<Rightarrow>
        (case skipSwitch (wire AND 0x7) dAtA i1 depth of
           Inl err \<Rightarrow> Inl err
         | Inr (i', depth') \<Rightarrow>
            if i' \<ge> 2 ^ 63 then Inl ErrInvalidLengthTypes else Inr (i', depth')))"

lemma decodeVarint_advances:
  "decodeVarint dAtA iNdEx shift wire = Inr (v, i') \<Longrightarrow> iNdEx < i'"
  by (induction dAtA iNdEx shift wire rule: decodeVarint.induct)
     (subst (asm) decodeVarint.simps, auto split: if_splits)

lemma skipVarint_advances:
  "skipVarint dAtA iNdEx shift = Inr i' \<Longrightarrow> iNdEx < i'"
  by (induction dAtA iNdEx shift rule: skipVarint.induct)
     (subst (asm) skipVarint.simps, auto split: if_splits)

lemma skipSwitch_advances:
  assumes "skipSwitch wireType dAtA iNdEx depth = Inr (i', depth')"
  shows "iNdEx \<le> i'"
proof -
  consider "wireType = 0" | "wireType = 1" | "wireType = 2" | "wireType = 3" | "wireType = 4"
    | "wireType = 5" | "wireType > 5"
    by linarith
  then show ?thesis
  proof cases
    case 1
    then show ?thesis
      using assms skipVarint_advances [of dAtA iNdEx 0 i']
      by (simp add: skipSwitch_def split: sum.splits)
  next
    case 2
    then show ?thesis using assms by (simp add: skipSwitch_def)
  next
    case 3
    show ?thesis
    proof (cases "decodeVarint dAtA iNdEx 0 0")
      case (Inl a)
      then show ?thesis using assms 3 by (simp add: skipSwitch_def)
    next
      case (Inr b)
      obtain len i2 where b: "b = (len, i2)" by (cases b)
      have "iNdEx < i2" using Inr b decodeVarint_advances by blast
      moreover have "i' = i2 + len"
        using assms Inr b 3 by (simp add: skipSwitch_def split: if_splits)
      ultimately show ?thesis by simp
    qed
  next
    case 4
    then show ?thesis using assms by (simp add: skipSwitch_def)
  next
    case 5
    then show ?thesis using assms by (simp add: skipSwitch_def split: if_splits)
  next
    case 6
    then show ?thesis using assms by (simp add: skipSwitch_def)
  next
    case 7
    then show ?thesis using assms by (simp add: skipSwitch_def)
  qed
qed

lemma skipStep_advances:
  assumes "skipStep dAtA iNdEx depth = Inr (i', depth')"
  shows "iNdEx < i'"
proof (cases "decodeVarint dAtA iNdEx 0 0")
  case (Inl err)
  then show ?thesis using assms unfolding skipStep_def by simp
next
  case (Inr p)
  obtain wire i1 where p: "p = (wire, i1)" by (cases p)
  have a: "iNdEx < i1" using Inr p decodeVarint_advances by blast
  show ?thesis
  proof (cases "skipSwitch (wire AND 0x7) dAtA i1 depth")
    case (Inl err)
    then show ?thesis using assms Inr p unfolding skipStep_def by simp
  next
    case sw: (Inr q)
    obtain i2 d2 where q: "q = (i2, d2)" by (cases q)
    have "i1 \<le> i2" using sw q skipSwitch_advances by blast
    moreover have "i' = i2"
      using assms Inr p sw q unfolding skipStep_def by (simp split: if_splits)
    ultimately show ?thesis using a by simp
  qed
qed

function skipTypes_from :: "bytes \<Rightarrow> nat \<Rightarrow> nat \<Rightarrow> error + nat" where
  "skipTypes_from dAtA iNdEx depth =
    (if iNdEx < length dAtA then
       (case skipStep dAtA iNdEx depth of
          Inl err \<Rightarrow> Inl err
        | Inr (i', depth') \<Rightarrow> if depth' = 0 then Inr i' else skipTypes_from dAtA i' depth')
     else Inl ErrUnexpectedEOF)"
  by pat_completeness auto
termination
  by (relation "measure (\<lambda>(d, i, depth). length d - i)")
     (auto dest: skipStep_advances)

declare skipTypes_from.simps [simp del]

definition skipTypes :: "bytes \<Rightarrow> error + nat" where
  "skipTypes dAtA = skipTypes_from dAtA 0 0"

lemma skipTypes_from_advances:
  "skipTypes_from dAtA iNdEx depth = Inr n \<Longrightarrow> iNdEx < n"
proof (induction dAtA iNdEx depth rule: skipTypes_from.induct)
  case (1 dAtA iNdEx depth)
  have lt: "iNdEx < length dAtA"
    using "1.prems" by (subst (asm) skipTypes_from.simps) (simp split: if_splits)
  show ?case
  proof (cases "skipStep dAtA iNdEx depth")
    case (Inl err)
    then show ?thesis
      using "1.prems" lt by (subst (asm) skipTypes_from.simps) simp
  next
    case (Inr p)
    obtain i' depth' where p: "p = (i', depth')" by (cases p)
    have a: "iNdEx < i'" using Inr p skipStep_advances by blast
    show ?thesis
    proof (cases "depth' = 0")
      case True
      then have "n = i'"
        using "1.prems" lt Inr p by (subst (asm) skipTypes_from.simps) simp
      with a show ?thesis by simp
    next
      case False
      then have "skipTypes_from dAtA i' depth' = Inr n"
        using "1.prems" lt Inr p by (subst (asm) skipTypes_from.simps) simp
      then have "i' < n" using "1.IH" [OF lt Inr p [symmetric] False] by simp
      with a show ?thesis by simp
    qed
  qed
qed

text \<open>
  The default branch of an \<^verbatim>\<open>Unmarshal\<close> loop: an unknown field is skipped, from the
  tag on.
\<close>

definition skipUnknown :: "bytes \<Rightarrow> nat \<Rightarrow> error + nat" where
  "skipUnknown dAtA preIndex =
    (case skipTypes (drop preIndex dAtA) of
       Inl err \<Rightarrow> Inl err
     | Inr skippy \<Rightarrow>
        if preIndex + skippy \<ge> 2 ^ 63 then Inl ErrInvalidLengthTypes
        else if preIndex + skippy > length dAtA then Inl ErrUnexpectedEOF
        else Inr (preIndex + skippy))"

lemma skipUnknown_advances:
  assumes "skipUnknown dAtA preIndex = Inr i'"
  shows "preIndex < i'"
proof (cases "skipTypes_from (drop preIndex dAtA) 0 0")
  case (Inl err)
  then show ?thesis using assms unfolding skipUnknown_def skipTypes_def by simp
next
  case (Inr skippy)
  then have "0 < skippy" by (rule skipTypes_from_advances)
  moreover have "i' = preIndex + skippy"
    using assms Inr unfolding skipUnknown_def skipTypes_def by (simp split: if_splits)
  ultimately show ?thesis by simp
qed

lemma readTag_advances:
  assumes "readTag name dAtA iNdEx = Inr (f, w, i')"
  shows "iNdEx < i'"
proof (cases "decodeVarint dAtA iNdEx 0 0")
  case (Inl err)
  then show ?thesis using assms unfolding readTag_def by simp
next
  case (Inr p)
  obtain wire i1 where p: "p = (wire, i1)" by (cases p)
  have "iNdEx < i1" using Inr p decodeVarint_advances by blast
  moreover have "i' = i1"
    using assms Inr p unfolding readTag_def Let_def by (simp split: if_splits)
  ultimately show ?thesis by simp
qed

lemma readLengthDelimited_advances:
  assumes "readLengthDelimited dAtA iNdEx = Inr (i1, postIndex)"
  shows "iNdEx < i1 \<and> i1 \<le> postIndex"
proof (cases "decodeVarint dAtA iNdEx 0 0")
  case (Inl err)
  then show ?thesis using assms unfolding readLengthDelimited_def by simp
next
  case (Inr p)
  obtain msglen i2 where p: "p = (msglen, i2)" by (cases p)
  have "iNdEx < i2" using Inr p decodeVarint_advances by blast
  moreover have "i1 = i2 \<and> postIndex = i2 + msglen"
    using assms Inr p unfolding readLengthDelimited_def by (simp split: if_splits)
  ultimately show ?thesis by simp
qed

text \<open>
  A length-delimited field of a message with a parameter codec: the wire type must be 2,
  and the bytes between the bounds are unmarshalled into the receiver.
\<close>

definition readMessage ::
  "string \<Rightarrow> 'a codec \<Rightarrow> 'a \<Rightarrow> nat \<Rightarrow> bytes \<Rightarrow> nat \<Rightarrow> error + 'a \<times> nat" where
  "readMessage field c receiver wireType dAtA iNdEx =
    (if wireType \<noteq> 2 then
       Inl (ErrorString (''proto: wrong wireType = %d for field '' @ field) [ArgInt (int wireType)])
     else case readLengthDelimited dAtA iNdEx of
       Inl err \<Rightarrow> Inl err
     | Inr (i1, postIndex) \<Rightarrow>
        (case msgUnmarshal c receiver (slice dAtA i1 postIndex) of
           Inl err \<Rightarrow> Inl err
         | Inr v \<Rightarrow> Inr (v, postIndex)))"

lemma readMessage_advances:
  assumes "readMessage field c receiver wireType dAtA iNdEx = Inr (v, i')"
  shows "iNdEx < i'"
proof (cases "readLengthDelimited dAtA iNdEx")
  case (Inl err)
  then show ?thesis using assms unfolding readMessage_def by (simp split: if_splits)
next
  case (Inr p)
  obtain i1 postIndex where p: "p = (i1, postIndex)" by (cases p)
  have "iNdEx < i1 \<and> i1 \<le> postIndex" using Inr p readLengthDelimited_advances by blast
  moreover have "i' = postIndex"
    using assms Inr p unfolding readMessage_def by (simp split: if_splits sum.splits)
  ultimately show ?thesis by simp
qed

text \<open>One field of \<^verbatim>\<open>BlockResponse.Unmarshal\<close>, and its loop.\<close>

definition BlockResponse_field ::
  "Codecs \<Rightarrow> bytes \<Rightarrow> nat \<Rightarrow> BlockResponseV2 \<Rightarrow> error + BlockResponseV2 \<times> nat" where
  "BlockResponse_field C dAtA iNdEx m =
    (case readTag ''BlockResponse'' dAtA iNdEx of
       Inl err \<Rightarrow> Inl err
     | Inr (fieldNum, wireType, i1) \<Rightarrow>
        if fieldNum = 1 then
          (case readMessage ''Block'' (cBlock C)
                  (case Block m of None \<Rightarrow> msgZero (cBlock C) | Some b \<Rightarrow> b) wireType dAtA i1 of
             Inl err \<Rightarrow> Inl err
           | Inr (b, i') \<Rightarrow> Inr (m\<lparr>Block := Some b\<rparr>, i'))
        else if fieldNum = 2 then
          (case readMessage ''ExtCommit'' (cExtCommit C)
                  (case ExtCommit m of None \<Rightarrow> msgZero (cExtCommit C) | Some e \<Rightarrow> e)
                  wireType dAtA i1 of
             Inl err \<Rightarrow> Inl err
           | Inr (e, i') \<Rightarrow> Inr (m\<lparr>ExtCommit := Some e\<rparr>, i'))
        else
          (case skipUnknown dAtA iNdEx of
             Inl err \<Rightarrow> Inl err
           | Inr i' \<Rightarrow> Inr (m, i')))"

lemma case_sum_InrD:
  "(case x of Inl err \<Rightarrow> Inl err | Inr (v, i) \<Rightarrow> Inr (f v, i)) = Inr (m', i') \<Longrightarrow>
   \<exists>v. x = Inr (v, i')"
  by (cases x) auto

lemma case_sum_InrD2:
  "(case x of Inl err \<Rightarrow> Inl err | Inr i \<Rightarrow> Inr (m, i)) = Inr (m', i') \<Longrightarrow> x = Inr i'"
  by (cases x) auto

lemma BlockResponse_field_advances:
  assumes "BlockResponse_field C dAtA iNdEx m = Inr (m', i')"
  shows "iNdEx < i'"
proof (cases "readTag ''BlockResponse'' dAtA iNdEx")
  case (Inl err)
  then show ?thesis using assms unfolding BlockResponse_field_def by simp
next
  case (Inr p)
  obtain fieldNum wireType i1 where p: "p = (fieldNum, wireType, i1)" by (cases p)
  have a: "iNdEx < i1" using Inr p readTag_advances by blast
  consider "fieldNum = 1" | "fieldNum = 2" | "fieldNum \<noteq> 1 \<and> fieldNum \<noteq> 2" by blast
  then show ?thesis
  proof cases
    case 1
    then have "\<exists>v. readMessage ''Block'' (cBlock C)
        (case Block m of None \<Rightarrow> msgZero (cBlock C) | Some b \<Rightarrow> b) wireType dAtA i1 = Inr (v, i')"
      using assms Inr p unfolding BlockResponse_field_def
      by (simp add: case_sum_InrD)
    then show ?thesis using a readMessage_advances by fastforce
  next
    case 2
    then have "\<exists>v. readMessage ''ExtCommit'' (cExtCommit C)
        (case ExtCommit m of None \<Rightarrow> msgZero (cExtCommit C) | Some e \<Rightarrow> e) wireType dAtA i1 = Inr (v, i')"
      using assms Inr p unfolding BlockResponse_field_def
      by (simp add: case_sum_InrD)
    then show ?thesis using a readMessage_advances by fastforce
  next
    case 3
    then have "skipUnknown dAtA iNdEx = Inr i'"
      using assms Inr p unfolding BlockResponse_field_def
      by (simp add: case_sum_InrD2)
    then show ?thesis by (rule skipUnknown_advances)
  qed
qed

function BlockResponse_Unmarshal_from ::
  "Codecs \<Rightarrow> bytes \<Rightarrow> nat \<Rightarrow> BlockResponseV2 \<Rightarrow> error + BlockResponseV2" where
  "BlockResponse_Unmarshal_from C dAtA iNdEx m =
    (if iNdEx < length dAtA then
       (case BlockResponse_field C dAtA iNdEx m of
          Inl err \<Rightarrow> Inl err
        | Inr (m', i') \<Rightarrow> BlockResponse_Unmarshal_from C dAtA i' m')
     else if iNdEx > length dAtA then Inl ErrUnexpectedEOF
     else Inr m)"
  by pat_completeness auto
termination
  by (relation "measure (\<lambda>(C, d, i, m). length d - i)")
     (auto dest: BlockResponse_field_advances)

declare BlockResponse_Unmarshal_from.simps [simp del]

definition BlockResponse_Unmarshal ::
  "Codecs \<Rightarrow> BlockResponseV2 \<Rightarrow> bytes \<Rightarrow> error + BlockResponseV2" where
  "BlockResponse_Unmarshal C m dAtA = BlockResponse_Unmarshal_from C dAtA 0 m"

text \<open>
  One field of \<^verbatim>\<open>Message.Unmarshal\<close>: each known field unmarshals a fresh inner message
  and makes its wrapper the \<^verbatim>\<open>Sum\<close>.
\<close>

definition Message_field ::
  "Codecs \<Rightarrow> bytes \<Rightarrow> nat \<Rightarrow> Message \<Rightarrow> error + Message \<times> nat" where
  "Message_field C dAtA iNdEx m =
    (case readTag ''Message'' dAtA iNdEx of
       Inl err \<Rightarrow> Inl err
     | Inr (fieldNum, wireType, i1) \<Rightarrow>
        if fieldNum = 1 then
          (case readMessage ''BlockRequest'' (cBlockRequest C) (msgZero (cBlockRequest C))
                  wireType dAtA i1 of
             Inl err \<Rightarrow> Inl err
           | Inr (v, i') \<Rightarrow> Inr (m\<lparr>Sum := Some (Message_BlockRequest (Some v))\<rparr>, i'))
        else if fieldNum = 2 then
          (case readMessage ''NoBlockResponse'' (cNoBlockResponse C) (msgZero (cNoBlockResponse C))
                  wireType dAtA i1 of
             Inl err \<Rightarrow> Inl err
           | Inr (v, i') \<Rightarrow> Inr (m\<lparr>Sum := Some (Message_NoBlockResponse (Some v))\<rparr>, i'))
        else if fieldNum = 3 then
          (if wireType \<noteq> 2 then
             Inl (ErrorString ''proto: wrong wireType = %d for field BlockResponse''
                    [ArgInt (int wireType)])
           else case readLengthDelimited dAtA i1 of
             Inl err \<Rightarrow> Inl err
           | Inr (i2, postIndex) \<Rightarrow>
              (case BlockResponse_Unmarshal C \<lparr>Block = None, ExtCommit = None\<rparr>
                      (slice dAtA i2 postIndex) of
                 Inl err \<Rightarrow> Inl err
               | Inr v \<Rightarrow> Inr (m\<lparr>Sum := Some (Message_BlockResponse (Some v))\<rparr>, postIndex)))
        else if fieldNum = 4 then
          (case readMessage ''StatusRequest'' (cStatusRequest C) (msgZero (cStatusRequest C))
                  wireType dAtA i1 of
             Inl err \<Rightarrow> Inl err
           | Inr (v, i') \<Rightarrow> Inr (m\<lparr>Sum := Some (Message_StatusRequest (Some v))\<rparr>, i'))
        else if fieldNum = 5 then
          (case readMessage ''StatusResponse'' (cStatusResponse C) (msgZero (cStatusResponse C))
                  wireType dAtA i1 of
             Inl err \<Rightarrow> Inl err
           | Inr (v, i') \<Rightarrow> Inr (m\<lparr>Sum := Some (Message_StatusResponse (Some v))\<rparr>, i'))
        else
          (case skipUnknown dAtA iNdEx of
             Inl err \<Rightarrow> Inl err
           | Inr i' \<Rightarrow> Inr (m, i')))"

lemma Message_field_advances:
  assumes "Message_field C dAtA iNdEx m = Inr (m', i')"
  shows "iNdEx < i'"
proof (cases "readTag ''Message'' dAtA iNdEx")
  case (Inl err)
  then show ?thesis using assms unfolding Message_field_def by simp
next
  case (Inr p)
  obtain fieldNum wireType i1 where p: "p = (fieldNum, wireType, i1)" by (cases p)
  have a: "iNdEx < i1" using Inr p readTag_advances by blast
  consider "fieldNum = 1" | "fieldNum = 2" | "fieldNum = 3" | "fieldNum = 4" | "fieldNum = 5"
    | "fieldNum \<noteq> 1 \<and> fieldNum \<noteq> 2 \<and> fieldNum \<noteq> 3 \<and> fieldNum \<noteq> 4 \<and> fieldNum \<noteq> 5"
    by blast
  then show ?thesis
  proof cases
    case 1
    then have "\<exists>v. readMessage ''BlockRequest'' (cBlockRequest C) (msgZero (cBlockRequest C))
        wireType dAtA i1 = Inr (v, i')"
      using assms Inr p unfolding Message_field_def by (simp add: case_sum_InrD)
    then show ?thesis using a readMessage_advances by fastforce
  next
    case 2
    then have "\<exists>v. readMessage ''NoBlockResponse'' (cNoBlockResponse C) (msgZero (cNoBlockResponse C))
        wireType dAtA i1 = Inr (v, i')"
      using assms Inr p unfolding Message_field_def by (simp add: case_sum_InrD)
    then show ?thesis using a readMessage_advances by fastforce
  next
    case 3
    show ?thesis
    proof (cases "readLengthDelimited dAtA i1")
      case (Inl err)
      then show ?thesis
        using assms Inr p 3 unfolding Message_field_def by (simp split: if_splits)
    next
      case rl: (Inr q)
      obtain i2 postIndex where q: "q = (i2, postIndex)" by (cases q)
      have "i1 < i2 \<and> i2 \<le> postIndex" using rl q readLengthDelimited_advances by blast
      moreover have "i' = postIndex"
        using assms Inr p 3 rl q unfolding Message_field_def
        by (simp split: if_splits sum.splits)
      ultimately show ?thesis using a by simp
    qed
  next
    case 4
    then have "\<exists>v. readMessage ''StatusRequest'' (cStatusRequest C) (msgZero (cStatusRequest C))
        wireType dAtA i1 = Inr (v, i')"
      using assms Inr p unfolding Message_field_def by (simp add: case_sum_InrD)
    then show ?thesis using a readMessage_advances by fastforce
  next
    case 5
    then have "\<exists>v. readMessage ''StatusResponse'' (cStatusResponse C) (msgZero (cStatusResponse C))
        wireType dAtA i1 = Inr (v, i')"
      using assms Inr p unfolding Message_field_def by (simp add: case_sum_InrD)
    then show ?thesis using a readMessage_advances by fastforce
  next
    case 6
    then have "skipUnknown dAtA iNdEx = Inr i'"
      using assms Inr p unfolding Message_field_def by (simp add: case_sum_InrD2)
    then show ?thesis by (rule skipUnknown_advances)
  qed
qed

function Message_Unmarshal_from :: "Codecs \<Rightarrow> bytes \<Rightarrow> nat \<Rightarrow> Message \<Rightarrow> error + Message" where
  "Message_Unmarshal_from C dAtA iNdEx m =
    (if iNdEx < length dAtA then
       (case Message_field C dAtA iNdEx m of
          Inl err \<Rightarrow> Inl err
        | Inr (m', i') \<Rightarrow> Message_Unmarshal_from C dAtA i' m')
     else if iNdEx > length dAtA then Inl ErrUnexpectedEOF
     else Inr m)"
  by pat_completeness auto
termination
  by (relation "measure (\<lambda>(C, d, i, m). length d - i)")
     (auto dest: Message_field_advances)

declare Message_Unmarshal_from.simps [simp del]

definition Message_Unmarshal :: "Codecs \<Rightarrow> Message \<Rightarrow> bytes \<Rightarrow> error + Message" where
  "Message_Unmarshal C m dAtA = Message_Unmarshal_from C dAtA 0 m"

subsection \<open>Stating the round trip\<close>

text \<open>
  The base-128 encoding of a number, least significant group first: what
  \<^verbatim>\<open>encodeVarintTypes\<close> leaves in the buffer, read from left to right.
\<close>

function varint :: "nat \<Rightarrow> bytes" where
  "varint v = (if v \<ge> 128 then of_nat ((v AND 0x7f) OR 0x80) # varint (drop_bit 7 v)
               else [of_nat v])"
  by pat_completeness auto
termination
  by (relation "measure id") (auto simp: drop_bit_eq_div)

declare varint.simps [simp del]

text \<open>
  The codecs of the inner messages are parameters, so a round trip of a \<open>Message\<close> is
  stated relative to theirs: an inner codec round-trips a value when marshalling it gives,
  without error, exactly \<^verbatim>\<open>Size()\<close> bytes that unmarshal into the zero value as the value
  itself. A nil field has nothing to round-trip.
\<close>

definition codecRoundTrips :: "'a codec \<Rightarrow> 'a \<Rightarrow> bool" where
  "codecRoundTrips c v =
    (case msgMarshal c v of
       Inl err \<Rightarrow> False
     | Inr e \<Rightarrow> length e = msgSize c v \<and> msgUnmarshal c (msgZero c) e = Inr v)"

definition fieldRoundTrips :: "'a codec \<Rightarrow> 'a option \<Rightarrow> bool" where
  "fieldRoundTrips c v = (case v of None \<Rightarrow> True | Some x \<Rightarrow> codecRoundTrips c x)"

text \<open>
  The bytes of a length-delimited field: tag, length, payload; and those of a
  \<open>BlockResponse\<close>, whose two fields both round-trip when present.
\<close>

definition fieldBytes :: "byte \<Rightarrow> 'a codec \<Rightarrow> 'a option \<Rightarrow> bytes" where
  "fieldBytes tag c v =
    (case v of
       None \<Rightarrow> []
     | Some x \<Rightarrow> (case msgMarshal c x of Inl err \<Rightarrow> [] | Inr e \<Rightarrow> tag # varint (length e) @ e))"

definition BlockResponse_bytes :: "Codecs \<Rightarrow> BlockResponseV2 \<Rightarrow> bytes" where
  "BlockResponse_bytes C r =
     fieldBytes 0xa (cBlock C) (Block r) @ fieldBytes 0x12 (cExtCommit C) (ExtCommit r)"

definition blockResponseRoundTrips :: "Codecs \<Rightarrow> BlockResponseV2 \<Rightarrow> bool" where
  "blockResponseRoundTrips C r =
     (fieldRoundTrips (cBlock C) (Block r) \<and> fieldRoundTrips (cExtCommit C) (ExtCommit r))"

text \<open>
  The protobuf field number of each wrapper of the oneof, and the condition on the message
  a wrapper holds: the pointer is not nil and the message it points to round-trips.
\<close>

fun fieldNumber :: "isMessage_Sum \<Rightarrow> nat" where
  "fieldNumber (Message_BlockRequest v) = 1"
| "fieldNumber (Message_NoBlockResponse v) = 2"
| "fieldNumber (Message_BlockResponse v) = 3"
| "fieldNumber (Message_StatusRequest v) = 4"
| "fieldNumber (Message_StatusResponse v) = 5"

fun innerRoundTrips :: "Codecs \<Rightarrow> isMessage_Sum \<Rightarrow> bool" where
  "innerRoundTrips C (Message_BlockRequest v) =
     (case v of None \<Rightarrow> False | Some x \<Rightarrow> codecRoundTrips (cBlockRequest C) x)"
| "innerRoundTrips C (Message_NoBlockResponse v) =
     (case v of None \<Rightarrow> False | Some x \<Rightarrow> codecRoundTrips (cNoBlockResponse C) x)"
| "innerRoundTrips C (Message_BlockResponse v) =
     (case v of None \<Rightarrow> False | Some r \<Rightarrow> blockResponseRoundTrips C r)"
| "innerRoundTrips C (Message_StatusRequest v) =
     (case v of None \<Rightarrow> False | Some x \<Rightarrow> codecRoundTrips (cStatusRequest C) x)"
| "innerRoundTrips C (Message_StatusResponse v) =
     (case v of None \<Rightarrow> False | Some x \<Rightarrow> codecRoundTrips (cStatusResponse C) x)"

subsection \<open>Sample codecs\<close>

text \<open>
  Codecs to run the generated code with. A message with a height is encoded as protobuf
  does a single \<^verbatim>\<open>int64\<close> field 1 holding a small value (nothing when it is zero); a
  status request has no fields; a block or an extended commit of handle \<open>n\<close> is \<open>n\<close>
  bytes.
\<close>

definition sampleHeightCodec :: "(int64 \<Rightarrow> 'a) \<Rightarrow> ('a \<Rightarrow> int64) \<Rightarrow> 'a codec" where
  "sampleHeightCodec mk h =
    \<lparr> msgSize = (\<lambda>v. if h v = 0 then 0 else 2),
      msgMarshal = (\<lambda>v. Inr (if h v = 0 then [] else [0x08, ucast (h v)])),
      msgUnmarshal = (\<lambda>r bs. case bs of
                          [] \<Rightarrow> Inr r
                        | [t, b] \<Rightarrow> if t = 0x08 then Inr (mk (ucast b)) else Inl ErrUnexpectedEOF
                        | _ \<Rightarrow> Inl ErrUnexpectedEOF),
      msgZero = mk 0 \<rparr>"

definition sampleOpaqueCodec :: "(nat \<Rightarrow> 'a) \<Rightarrow> ('a \<Rightarrow> nat) \<Rightarrow> 'a codec" where
  "sampleOpaqueCodec mk h =
    \<lparr> msgSize = h,
      msgMarshal = (\<lambda>v. Inr (replicate (h v) 0x01)),
      msgUnmarshal = (\<lambda>r bs. Inr (mk (length bs))),
      msgZero = mk 0 \<rparr>"

definition sampleCodecs :: Codecs where
  "sampleCodecs =
    \<lparr> cBlockRequest = sampleHeightCodec BlockRequest reqHeight,
      cNoBlockResponse = sampleHeightCodec NoBlockResponse noBlockHeight,
      cStatusRequest = \<lparr>msgSize = (\<lambda>v. 0), msgMarshal = (\<lambda>v. Inr []),
                         msgUnmarshal = (\<lambda>r bs. Inr r), msgZero = StatusRequest\<rparr>,
      cStatusResponse = sampleHeightCodec (\<lambda>h. StatusResponse h 0) statusHeight,
      cBlock = sampleOpaqueCodec BlockProto (\<lambda>b. case b of BlockProto n \<Rightarrow> n),
      cExtCommit = sampleOpaqueCodec ExtendedCommitProto
                     (\<lambda>c. case c of ExtendedCommitProto n \<Rightarrow> n) \<rparr>"

section \<open>Properties\<close>

subsection \<open>Helper facts\<close>

lemma sint_succ:
  fixes t :: int64
  shows "sint (t + 1) = (if sint t = 2^63 - 1 then - (2^63) else sint t + 1)"
proof (cases "sint t = 2^63 - 1")
  case True
  have "sint t = sint (word_of_int (2^63 - 1) :: int64)" using True by simp
  then have "t = word_of_int (2^63 - 1)" by (rule signed_word_eqI)
  then show ?thesis using True by simp
next
  case False
  have "sint t < 2^63" using sint_lt [of t] by simp
  moreover have "- (2^63) \<le> sint t" using sint_ge [of t] by simp
  ultimately have "signed_take_bit 63 (sint t + 1) = sint t + 1"
    using False by (intro signed_take_bit_int_eq_self) auto
  then show ?thesis using False by (simp add: sint_word_ariths)
qed

lemma adjacent_heights_iff:
  fixes u t :: int64
  shows "(u = t + 1 \<and> \<not> u \<le>s t) = (sint u = sint t + 1)"
proof
  assume h: "u = t + 1 \<and> \<not> u \<le>s t"
  then have lt: "sint t < sint (t + 1)" by (auto simp: word_sle_eq)
  have "- (2^63) \<le> sint t" using sint_ge [of t] by simp
  with lt have "sint t \<noteq> 2^63 - 1" by (auto simp: sint_succ)
  with h show "sint u = sint t + 1" by (simp add: sint_succ)
next
  assume h: "sint u = sint t + 1"
  have "sint u < 2^63" using sint_lt [of u] by simp
  with h have ne: "sint t \<noteq> 2^63 - 1" by auto
  then have "sint u = sint (t + 1)" using h by (simp add: sint_succ)
  then have "u = t + 1" by (rule signed_word_eqI)
  moreover have "\<not> u \<le>s t" using h by (simp add: word_sle_eq)
  ultimately show "u = t + 1 \<and> \<not> u \<le>s t" by simp
qed

lemma emitted_emit [simp]: "emitted r (emit e r) = [e]"
  by (simp add: emitted_def emit_def)

lemma commitBlock_emitted:
  "take 3 (emitted r (fst (outcome_state (commitBlock env nb b parts bid (r, l))))) =
     [PopRequest, SaveBlock b parts (commit nb), ApplyBlock (state l) bid b]"
  by (simp add: commitBlock_def emit_def emitted_def Let_def split: sum.splits)

lemma commitBlock_trusted:
  "lastTrustedBlock (fst (outcome_state (commitBlock env nb b parts bid (r, l)))) = Some nb"
  by (simp add: commitBlock_def emit_def Let_def split: sum.splits)

lemma commitBlock_validateBasic:
  "commitBlock (env\<lparr>validateBasic := vb\<rparr>) nb b parts bid s = commitBlock env nb b parts bid s"
  by (simp add: commitBlock_def split: prod.splits)

lemma processBlock_no_load_panic:
  "processBlock env peek s \<noteq> Panic (PanicString ''Failed to load last trusted block'') s'"
  by (cases s) (auto simp: processBlock_def commitBlock_def Let_def
      split: option.splits sum.splits if_splits)

lemma step_no_load_panic:
  "poolRoutine_step env i s \<noteq> Panic (PanicString ''Failed to load last trusted block'') s'"
proof (cases s)
  case (Pair r l)
  then show ?thesis
    by (cases i) (auto simp: processBlock_no_load_panic switchToConsensusTick_def Let_def)
qed

lemma poolRoutine_no_load_panic:
  "poolRoutine env inputs s \<noteq> Panic (PanicString ''Failed to load last trusted block'') s'"
proof (induction inputs arbitrary: s)
  case Nil
  then show ?case by simp
next
  case (Cons i rest)
  then show ?case
    using step_no_load_panic [of env i s s']
    by (auto split: outcome.splits)
qed

subsection \<open>The driver and a block that fails verification\<close>

text \<open>
  Claim C1 says that when the adjacent verification of the peeked block fails, the driver
  calls \<^verbatim>\<open>RedoRequest\<close> for its height and reports a peer error, and otherwise leaves
  everything as it was: no pop, no save, no \<^verbatim>\<open>ApplyBlock\<close>, the trusted block kept.
  The source does the first two and then, unless sending the peer error fails, falls
  through to the code that follows the \<^verbatim>\<open>if\<close>: the statement that would restart the loop
  is missing. On the sample run below the trusted block is at height 1, the peeked block at
  height 2 carries a validators hash that the verifier rejects, and the driver still pops
  the request, saves and applies the block, and makes it the trusted block.
\<close>

theorem verify_failure_still_commits:
  "VerifyAdjacent (validateBasic sampleEnv) (valsHash sampleEnv)
      \<lparr>shHeader = sampleHeader1, shCommit = Some (Commit 1)\<rparr>
      \<lparr>shHeader = sampleHeader2Bad, shCommit = Some (Commit 2)\<rparr>
      (NextValidators sampleState) =
     Some (ErrorString
       ''expected new header validators (%X) to match those that were supplied (%X) at height %d''
       [ArgBytes [9], ArgBytes [2], ArgInt64 2]) \<and>
   processBlock sampleEnv (Some (sampleResponse sampleHeader2Bad))
      (sampleReactor (Some (sampleResponse sampleHeader1)) True, sampleLocals) =
     Continue
      (sampleReactor (Some (sampleResponse sampleHeader2Bad)) True
         \<lparr>trace :=
            [RedoRequest 2,
             SendError \<lparr>NodeID = ''peerA'',
               Err = WrapError ''invalid last commit: %w'' []
                 (ErrorString
                   ''expected new header validators (%X) to match those that were supplied (%X) at height %d''
                   [ArgBytes [9], ArgBytes [2], ArgInt64 2])\<rparr>,
             PopRequest,
             SaveBlock \<lparr>bHeader = sampleHeader2Bad, LastCommit = None\<rparr> sampleParts (Some (Commit 2)),
             ApplyBlock sampleState \<lparr>Hash = [0xAB], PartSetHeader = partsHeader sampleParts\<rparr>
               \<lparr>bHeader = sampleHeader2Bad, LastCommit = None\<rparr>,
             RecordConsMetrics \<lparr>bHeader = sampleHeader2Bad, LastCommit = None\<rparr>]\<rparr>,
       sampleLocals\<lparr>state := sampleState\<lparr>LastBlockHeight := 2\<rparr>, blocksSynced := 1,
                     didProcessCh := 1\<rparr>)"
  by (simp add: VerifyAdjacent_def processBlock_def commitBlock_def emit_def Let_def
      word_sle_eq sampleEnv_def sampleReactor_def sampleLocals_def sampleState_def
      sampleResponse_def sampleHeader1_def sampleHeader2Bad_def)

subsection \<open>The adjacent verifier\<close>

text \<open>
  Claim C2: \<^verbatim>\<open>VerifyAdjacent\<close> returns success exactly when the six rules hold together:
  the trusted header's next validators hash is non-empty, the untrusted height is the
  trusted height plus one, the untrusted header passes \<^verbatim>\<open>ValidateBasic\<close> against the
  trusted chain id, its time is strictly after the trusted time, its validators hash is the
  hash of the supplied validator set, and it equals the trusted header's next validators
  hash. On every other input it returns an error. The heights of rule 2 are read as
  integers: at the top of the \<^verbatim>\<open>int64\<close> range, where \<^verbatim>\<open>Height+1\<close> wraps, the source's
  further check that the new height is greater than the old one rejects the header.
\<close>

theorem VerifyAdjacent_success_iff:
  "(VerifyAdjacent vb vh T U V = None) =
     (rule1 T \<and> rule2 T U \<and> rule3 vb T U \<and> rule4 T U \<and>
      rule5 vh U V \<and> rule6 T U) \<and>
   (\<exists>err. VerifyAdjacent vb vh T U V = Some err) =
     (\<not> (rule1 T \<and> rule2 T U \<and> rule3 vb T U \<and> rule4 T U \<and>
      rule5 vh U V \<and> rule6 T U))"
proof -
  have iff: "(VerifyAdjacent vb vh T U V = None) =
     (rule1 T \<and> rule2 T U \<and> rule3 vb T U \<and> rule4 T U \<and>
      rule5 vh U V \<and> rule6 T U)"
  proof (cases "vb U (ChainID (shHeader T))")
    case None
    then show ?thesis
      using adjacent_heights_iff [of "Height (shHeader U)" "Height (shHeader T)"]
      by (auto simp: VerifyAdjacent_def Let_def rule1_def rule2_def rule3_def rule4_def
          rule5_def rule6_def)
  next
    case (Some e)
    then show ?thesis
      by (simp add: VerifyAdjacent_def Let_def rule3_def)
  qed
  have "(\<exists>err. VerifyAdjacent vb vh T U V = Some err) =
      (VerifyAdjacent vb vh T U V \<noteq> None)"
    by auto
  with iff show ?thesis by simp
qed

theorem VerifyAdjacent_success_iff_witness:
  "VerifyAdjacent (\<lambda>h c. None) (\<lambda>v. [2])
      \<lparr>shHeader = sampleHeader1, shCommit = None\<rparr>
      \<lparr>shHeader = sampleHeader2, shCommit = None\<rparr> (ValidatorSet 2) = None \<and>
   VerifyAdjacent (\<lambda>h c. None) (\<lambda>v. [2])
      \<lparr>shHeader = sampleHeader1, shCommit = None\<rparr>
      \<lparr>shHeader = sampleHeader2Bad, shCommit = None\<rparr> (ValidatorSet 2) \<noteq> None"
proof -
  have good: "rule1 \<lparr>shHeader = sampleHeader1, shCommit = None\<rparr> \<and>
      rule2 \<lparr>shHeader = sampleHeader1, shCommit = None\<rparr> \<lparr>shHeader = sampleHeader2, shCommit = None\<rparr> \<and>
      rule3 (\<lambda>h c. None) \<lparr>shHeader = sampleHeader1, shCommit = None\<rparr> \<lparr>shHeader = sampleHeader2, shCommit = None\<rparr> \<and>
      rule4 \<lparr>shHeader = sampleHeader1, shCommit = None\<rparr> \<lparr>shHeader = sampleHeader2, shCommit = None\<rparr> \<and>
      rule5 (\<lambda>v. [2]) \<lparr>shHeader = sampleHeader2, shCommit = None\<rparr> (ValidatorSet 2) \<and>
      rule6 \<lparr>shHeader = sampleHeader1, shCommit = None\<rparr> \<lparr>shHeader = sampleHeader2, shCommit = None\<rparr>"
    by (simp add: rule1_def rule2_def rule3_def rule4_def rule5_def rule6_def
        sampleHeader1_def sampleHeader2_def)
  have bad: "\<not> rule5 (\<lambda>v. [2]) \<lparr>shHeader = sampleHeader2Bad, shCommit = None\<rparr> (ValidatorSet 2)"
    by (simp add: rule5_def sampleHeader2Bad_def)
  show ?thesis
    using VerifyAdjacent_success_iff [of "\<lambda>h c. None" "\<lambda>v. [2]"
        "\<lparr>shHeader = sampleHeader1, shCommit = None\<rparr>"
        "\<lparr>shHeader = sampleHeader2, shCommit = None\<rparr>" "ValidatorSet 2"]
      VerifyAdjacent_success_iff [of "\<lambda>h c. None" "\<lambda>v. [2]"
        "\<lparr>shHeader = sampleHeader1, shCommit = None\<rparr>"
        "\<lparr>shHeader = sampleHeader2Bad, shCommit = None\<rparr>" "ValidatorSet 2"]
      good bad
    by simp
qed

text \<open>
  Claim C3 says that a failure of rule 4, 5 or 6 (the earlier rules holding) is returned
  with a tag that tells it from a failure of rule 2 or 3. It fails for rule 4: with equal
  header times and rules 1 to 3 satisfied, the returned error is a plain error string, the
  same kind of error as the one for non-adjacent heights, and not a
  \<^verbatim>\<open>light.ErrInvalidHeader\<close>.
\<close>

theorem rule4_failure_untagged_counterexample:
  "rule1 \<lparr>shHeader = sampleHeader1, shCommit = None\<rparr> \<and>
   rule2 \<lparr>shHeader = sampleHeader1, shCommit = None\<rparr>
         \<lparr>shHeader = sampleHeader2\<lparr>Time := 100\<rparr>, shCommit = None\<rparr> \<and>
   rule3 (\<lambda>h c. None) \<lparr>shHeader = sampleHeader1, shCommit = None\<rparr>
         \<lparr>shHeader = sampleHeader2\<lparr>Time := 100\<rparr>, shCommit = None\<rparr> \<and>
   \<not> rule4 \<lparr>shHeader = sampleHeader1, shCommit = None\<rparr>
         \<lparr>shHeader = sampleHeader2\<lparr>Time := 100\<rparr>, shCommit = None\<rparr> \<and>
   VerifyAdjacent (\<lambda>h c. None) (\<lambda>v. [2])
      \<lparr>shHeader = sampleHeader1, shCommit = None\<rparr>
      \<lparr>shHeader = sampleHeader2\<lparr>Time := 100\<rparr>, shCommit = None\<rparr> (ValidatorSet 2) =
     Some (ErrorString ''expected new header time %v to be after old header time %v''
            [ArgTime 100, ArgTime 100]) \<and>
   \<not> isErrInvalidHeader (ErrorString ''expected new header time %v to be after old header time %v''
            [ArgTime 100, ArgTime 100])"
  by (simp add: VerifyAdjacent_def Let_def rule1_def rule2_def rule3_def rule4_def
      sampleHeader1_def sampleHeader2_def word_sle_eq)

text \<open>
  Claim C3 as amended: an error returned by \<^verbatim>\<open>VerifyAdjacent\<close> is a
  \<^verbatim>\<open>light.ErrInvalidHeader\<close> exactly when rules 1 to 5 hold and rule 6 fails. So a
  rule 6 failure is the only tagged one; failures of rules 4 and 5 are untagged, as are
  those of rules 1, 2 and 3.
\<close>

theorem VerifyAdjacent_tag_iff:
  assumes "VerifyAdjacent vb vh T U V = Some err"
  shows "isErrInvalidHeader err =
     (rule1 T \<and> rule2 T U \<and> rule3 vb T U \<and> rule4 T U \<and>
      rule5 vh U V \<and> \<not> rule6 T U)"
proof (cases "vb U (ChainID (shHeader T))")
  case None
  then show ?thesis
    using assms adjacent_heights_iff [of "Height (shHeader U)" "Height (shHeader T)"]
    by (auto simp: VerifyAdjacent_def Let_def rule1_def rule2_def rule3_def rule4_def
        rule5_def rule6_def split: if_splits)
next
  case (Some e)
  then show ?thesis
    using assms by (auto simp: VerifyAdjacent_def Let_def rule3_def split: if_splits)
qed

theorem VerifyAdjacent_tag_iff_witness:
  "isErrInvalidHeader (ErrInvalidHeader (ErrorString
      ''expected old header's next validators (%X) to match those from new header (%X)''
      [ArgBytes [2], ArgBytes [9]])) \<and>
   \<not> rule6 \<lparr>shHeader = sampleHeader1, shCommit = None\<rparr>
            \<lparr>shHeader = sampleHeader2Bad, shCommit = None\<rparr>"
proof -
  have v: "VerifyAdjacent (\<lambda>h c. None) (\<lambda>v. [9])
      \<lparr>shHeader = sampleHeader1, shCommit = None\<rparr>
      \<lparr>shHeader = sampleHeader2Bad, shCommit = None\<rparr> (ValidatorSet 9) =
     Some (ErrInvalidHeader (ErrorString
      ''expected old header's next validators (%X) to match those from new header (%X)''
      [ArgBytes [2], ArgBytes [9]]))"
    by (simp add: VerifyAdjacent_def Let_def sampleHeader1_def sampleHeader2Bad_def word_sle_eq)
  show ?thesis
    using VerifyAdjacent_tag_iff [OF v] by simp
qed

subsection \<open>Serving block requests\<close>

text \<open>
  Claim C4 says that every inbound \<^verbatim>\<open>BlockRequest\<close> gets exactly one reply. It fails when
  a load from the store panics: \<^verbatim>\<open>respondToPeer\<close> then sends nothing (the panic goes up
  to \<^verbatim>\<open>handleMessage\<close>, which recovers it). In the sample store the load at height 7
  panics, and the reactor's trace stays empty.
\<close>

theorem store_panic_sends_no_reply_counterexample:
  "loadBlockProto sampleEnv 7 = Panics (PanicString ''corrupted block store'') \<and>
   respondToPeer sampleEnv (BlockRequest 7) ''peerB'' (sampleReactor None True) =
     (Panics (PanicString ''corrupted block store''), sampleReactor None True) \<and>
   trace (snd (respondToPeer sampleEnv (BlockRequest 7) ''peerB'' (sampleReactor None True))) = []"
  by (simp add: respondToPeer_def sampleEnv_def sampleReactor_def Let_def)

text \<open>
  Claim C4 as amended: for an inbound \<^verbatim>\<open>BlockRequest\<close> the reactor loads the block at
  the requested height and, when it is present, the commit. When the block is missing, or
  the block is present and the commit missing, it sends exactly one envelope, addressed to
  the requesting peer, with \<^verbatim>\<open>NoBlockResponse\<close> for that height; when both are present
  it sends exactly one envelope, addressed to that peer, with a \<^verbatim>\<open>BlockResponse\<close>
  carrying them. When a load that is made panics, nothing is sent and the panic is the
  outcome. The message handler routes a \<^verbatim>\<open>BlockRequest\<close> to \<^verbatim>\<open>respondToPeer\<close> with
  the sender as the peer.
\<close>

theorem respondToPeer_replies_once:
  assumes "height = reqHeight msg"
    and "noBlock = \<lparr>From = [], To = peerID, Broadcast = False,
                     Message = MsgNoBlockResponse (NoBlockResponse height)\<rparr>"
    and "out = respondToPeer env msg peerID r"
  shows
    "(loadBlockProto env height = Returns None \<longrightarrow>
        out = (Returns (send env noBlock), r\<lparr>trace := trace r @ [Send noBlock]\<rparr>)) \<and>
     (loadBlockProto env height = Returns (Some b) \<and>
      loadBlockCommitProto env height = Returns None \<longrightarrow>
        out = (Returns (send env noBlock), r\<lparr>trace := trace r @ [Send noBlock]\<rparr>)) \<and>
     (loadBlockProto env height = Returns (Some b) \<and>
      loadBlockCommitProto env height = Returns (Some c) \<longrightarrow>
        out = (Returns (send env \<lparr>From = [], To = peerID, Broadcast = False,
                                    Message = MsgBlockResponse (Some b) (Some c)\<rparr>),
               r\<lparr>trace := trace r @
                    [Send \<lparr>From = [], To = peerID, Broadcast = False,
                            Message = MsgBlockResponse (Some b) (Some c)\<rparr>]\<rparr>)) \<and>
     (loadBlockProto env height = Panics p \<or>
      loadBlockProto env height = Returns (Some b) \<and>
      loadBlockCommitProto env height = Panics p \<longrightarrow>
        out = (Panics p, r)) \<and>
     handleBlockSyncMessage env
        \<lparr>From = peerID, To = t, Broadcast = bc, Message = MsgBlockRequest msg\<rparr> r = out"
  using assms
  by (auto simp: respondToPeer_def handleBlockSyncMessage_def envelopeTo_def emit_def Let_def)

theorem respondToPeer_replies_once_witness:
  "respondToPeer sampleEnv (BlockRequest 1) ''peerB'' (sampleReactor None True) =
     (Returns None, sampleReactor None True \<lparr>trace :=
        [Send \<lparr>From = [], To = ''peerB'', Broadcast = False,
                Message = MsgBlockResponse (Some (BlockProto 1)) (Some (CommitProto 1))\<rparr>]\<rparr>) \<and>
   respondToPeer sampleEnv (BlockRequest 2) ''peerB'' (sampleReactor None True) =
     (Returns None, sampleReactor None True \<lparr>trace :=
        [Send \<lparr>From = [], To = ''peerB'', Broadcast = False,
                Message = MsgNoBlockResponse (NoBlockResponse 2)\<rparr>]\<rparr>) \<and>
   respondToPeer sampleEnv (BlockRequest 3) ''peerB'' (sampleReactor None True) =
     (Returns None, sampleReactor None True \<lparr>trace :=
        [Send \<lparr>From = [], To = ''peerB'', Broadcast = False,
                Message = MsgNoBlockResponse (NoBlockResponse 3)\<rparr>]\<rparr>) \<and>
   respondToPeer sampleEnv (BlockRequest 7) ''peerB'' (sampleReactor None True) =
     (Panics (PanicString ''corrupted block store''), sampleReactor None True)"
proof -
  have l1: "loadBlockProto sampleEnv 1 = Returns (Some (BlockProto 1))"
    and c1: "loadBlockCommitProto sampleEnv 1 = Returns (Some (CommitProto 1))"
    and l2: "loadBlockProto sampleEnv 2 = Returns (Some (BlockProto 2))"
    and c2: "loadBlockCommitProto sampleEnv 2 = Returns None"
    and l3: "loadBlockProto sampleEnv 3 = Returns None"
    and l7: "loadBlockProto sampleEnv 7 = Panics (PanicString ''corrupted block store'')"
    by (simp_all add: sampleEnv_def)
  have s: "send sampleEnv = (\<lambda>e. None)" by (simp add: sampleEnv_def)
  have t: "trace (sampleReactor None True) = []" by (simp add: sampleReactor_def)
  have r1: "reqHeight (BlockRequest 1) = 1" and r2: "reqHeight (BlockRequest 2) = 2"
    and r3: "reqHeight (BlockRequest 3) = 3" and r7: "reqHeight (BlockRequest 7) = 7"
    by simp_all
  note a = respondToPeer_replies_once [where env = sampleEnv and msg = "BlockRequest 1"
      and height = 1 and peerID = "''peerB''" and r = "sampleReactor None True"
      and b = "BlockProto 1" and c = "CommitProto 1", OF r1 [symmetric] refl refl]
  note b = respondToPeer_replies_once [where env = sampleEnv and msg = "BlockRequest 2"
      and height = 2 and peerID = "''peerB''" and r = "sampleReactor None True"
      and b = "BlockProto 2", OF r2 [symmetric] refl refl]
  note c = respondToPeer_replies_once [where env = sampleEnv and msg = "BlockRequest 3"
      and height = 3 and peerID = "''peerB''" and r = "sampleReactor None True",
      OF r3 [symmetric] refl refl]
  note d = respondToPeer_replies_once [where env = sampleEnv and msg = "BlockRequest 7"
      and height = 7 and peerID = "''peerB''" and r = "sampleReactor None True"
      and p = "PanicString ''corrupted block store''", OF r7 [symmetric] refl refl]
  have p1: "respondToPeer sampleEnv (BlockRequest 1) ''peerB'' (sampleReactor None True) =
     (Returns None, sampleReactor None True \<lparr>trace :=
        [Send \<lparr>From = [], To = ''peerB'', Broadcast = False,
                Message = MsgBlockResponse (Some (BlockProto 1)) (Some (CommitProto 1))\<rparr>]\<rparr>)"
    using a l1 c1 by (simp add: s t)
  have p2: "respondToPeer sampleEnv (BlockRequest 2) ''peerB'' (sampleReactor None True) =
     (Returns None, sampleReactor None True \<lparr>trace :=
        [Send \<lparr>From = [], To = ''peerB'', Broadcast = False,
                Message = MsgNoBlockResponse (NoBlockResponse 2)\<rparr>]\<rparr>)"
    using b l2 c2 by (simp add: s t)
  have p3: "respondToPeer sampleEnv (BlockRequest 3) ''peerB'' (sampleReactor None True) =
     (Returns None, sampleReactor None True \<lparr>trace :=
        [Send \<lparr>From = [], To = ''peerB'', Broadcast = False,
                Message = MsgNoBlockResponse (NoBlockResponse 3)\<rparr>]\<rparr>)"
    using c l3 by (simp add: s t)
  have p7: "respondToPeer sampleEnv (BlockRequest 7) ''peerB'' (sampleReactor None True) =
     (Panics (PanicString ''corrupted block store''), sampleReactor None True)"
    using d l7 by simp
  from p1 p2 p3 p7 show ?thesis by simp
qed

subsection \<open>The first block after genesis\<close>

text \<open>
  Claim C5: when there is no trusted block and the initial state's last block height
  is 0, the driver compares the hash of the initial state's validators with the block's
  validators hash. On a mismatch the loop returns with the reactor as it was (nothing
  popped, saved or applied); on a match the block goes through the commit steps (it
  becomes the trusted block; pop, save, apply). The adjacent verifier plays no part:
  replacing the header validation it uses by any other changes nothing.
\<close>

theorem genesis_validators_hash_check:
  assumes "lastTrustedBlock r = None"
    and "LastBlockHeight (initialState r) = 0"
    and "block newBlock = Some b"
    and "makePartSet env b = Inr parts"
    and "l' = l\<lparr>didProcessCh := didProcessCh l + 1\<rparr>"
    and "newBlockID = \<lparr>Hash = blockHash env b, PartSetHeader = partsHeader parts\<rparr>"
    and "out = processBlock env (Some newBlock) (r, l)"
  shows "(if valsHash env (Validators (initialState r)) = ValidatorsHash (bHeader b)
          then out = commitBlock env newBlock b parts newBlockID (r, l') \<and>
               take 3 (emitted r (fst (outcome_state out))) =
                 [PopRequest, SaveBlock b parts (commit newBlock), ApplyBlock (state l) newBlockID b] \<and>
               lastTrustedBlock (fst (outcome_state out)) = Some newBlock
          else out = Return (r, l')) \<and>
         processBlock (env\<lparr>validateBasic := vb\<rparr>) (Some newBlock) (r, l) = out"
proof -
  have eq: "out = (if valsHash env (Validators (initialState r)) = ValidatorsHash (bHeader b)
          then commitBlock env newBlock b parts newBlockID (r, l') else Return (r, l'))"
    using assms by (simp add: processBlock_def Let_def)
  have "processBlock (env\<lparr>validateBasic := vb\<rparr>) (Some newBlock) (r, l) =
      (if valsHash env (Validators (initialState r)) = ValidatorsHash (bHeader b)
          then commitBlock env newBlock b parts newBlockID (r, l') else Return (r, l'))"
    using assms by (simp add: processBlock_def Let_def commitBlock_validateBasic)
  with eq show ?thesis
    using commitBlock_emitted [of r env newBlock b parts newBlockID l']
      commitBlock_trusted [of env newBlock b parts newBlockID r l']
    by (simp add: assms(5))
qed

theorem genesis_validators_hash_check_witness:
  "processBlock sampleEnv (Some (sampleResponse sampleHeader2)) (sampleReactor None True, sampleLocals) =
     Return (sampleReactor None True, sampleLocals\<lparr>didProcessCh := 1\<rparr>) \<and>
   processBlock sampleEnv (Some (sampleResponse sampleHeader1)) (sampleReactor None True, sampleLocals) =
     commitBlock sampleEnv (sampleResponse sampleHeader1) \<lparr>bHeader = sampleHeader1, LastCommit = None\<rparr>
       sampleParts \<lparr>Hash = [0xAB], PartSetHeader = partsHeader sampleParts\<rparr>
       (sampleReactor None True, sampleLocals\<lparr>didProcessCh := 1\<rparr>) \<and>
   processBlock (sampleEnv\<lparr>validateBasic := (\<lambda>h c. Some Canceled)\<rparr>)
       (Some (sampleResponse sampleHeader1)) (sampleReactor None True, sampleLocals) =
     processBlock sampleEnv (Some (sampleResponse sampleHeader1)) (sampleReactor None True, sampleLocals)"
proof -
  have a: "lastTrustedBlock (sampleReactor None True) = None"
    and b: "LastBlockHeight (initialState (sampleReactor None True)) = 0"
    by (simp_all add: sampleReactor_def sampleState_def)
  have c1: "block (sampleResponse sampleHeader1) = Some \<lparr>bHeader = sampleHeader1, LastCommit = None\<rparr>"
    and c2: "block (sampleResponse sampleHeader2) = Some \<lparr>bHeader = sampleHeader2, LastCommit = None\<rparr>"
    by (simp_all add: sampleResponse_def)
  have d: "\<And>b. makePartSet sampleEnv b = Inr sampleParts"
    and e: "\<And>b. blockHash sampleEnv b = [0xAB]"
    and f: "valsHash sampleEnv (Validators (initialState (sampleReactor None True))) = [1]"
    by (simp_all add: sampleEnv_def sampleReactor_def sampleState_def)
  show ?thesis
    using genesis_validators_hash_check [OF a b c1 d refl refl refl, of sampleLocals "\<lambda>h c. Some Canceled"]
      genesis_validators_hash_check [OF a b c2 d refl refl refl, of sampleLocals "\<lambda>h c. None"]
    by (simp add: e f sampleHeader1_def sampleHeader2_def sampleLocals_def)
qed

subsection \<open>Switching to consensus\<close>

text \<open>
  Claim C6 says that on a tick of the switch-to-consensus ticker the driver stops the pool,
  clears the block-sync flag and invokes the consensus handoff exactly when the pool is
  caught up or the last advance is more than \<^verbatim>\<open>syncTimeout\<close> ago. The handoff is
  guarded: with no consensus reactor configured (\<^verbatim>\<open>consReactor == nil\<close>) a caught-up
  node stops the pool and clears the flag but invokes no handoff.
\<close>

theorem handoff_needs_consensus_reactor_counterexample:
  "switchToConsensusTick True 0 0 (sampleReactor None False, sampleLocals) =
     Return (sampleReactor None False \<lparr>blockSync := False, trace := [PoolStop]\<rparr>, sampleLocals) \<and>
   SwitchToConsensus (state sampleLocals) False \<notin>
     set (trace (fst (outcome_state
        (switchToConsensusTick True 0 0 (sampleReactor None False, sampleLocals)))))"
  by (simp add: switchToConsensusTick_def sampleReactor_def emit_def Let_def)

text \<open>
  Claim C6 as amended: on a tick, the driver stops the pool, clears the block-sync flag and
  returns exactly when the pool is caught up or more than 60 s have passed since the last
  advance; it then invokes the handoff with the current state, provided a consensus
  reactor is configured. Otherwise it continues with nothing changed, so the handoff is
  invoked only when the node is caught up or stalled.
\<close>

theorem switchToConsensusTick_handoff:
  assumes "out = switchToConsensusTick isCaughtUp lastAdvance now (r, l)"
    and "stalled = (now - lastAdvance > 60 * 1000000000)"
    and "handoff = SwitchToConsensus (state l) (blocksSynced l > 0 \<or> stateSynced l)"
  shows "(if isCaughtUp \<or> stalled
          then out = Return (r\<lparr>blockSync := False,
                       trace := trace r @ PoolStop # (if consReactor r then [handoff] else [])\<rparr>, l)
          else out = Continue (r, l)) \<and>
         (PoolStop \<in> set (emitted r (fst (outcome_state out)))) = (isCaughtUp \<or> stalled) \<and>
         (handoff \<in> set (emitted r (fst (outcome_state out)))) =
            (consReactor r \<and> (isCaughtUp \<or> stalled))"
  using assms
  by (auto simp: switchToConsensusTick_def syncTimeout_def Second_def Millisecond_def
      emit_def emitted_def Let_def)

theorem switchToConsensusTick_handoff_witness:
  "switchToConsensusTick False 0 (61 * 1000000000) (sampleReactor None True, sampleLocals) =
     Return (sampleReactor None True \<lparr>blockSync := False,
        trace := [PoolStop, SwitchToConsensus sampleState False]\<rparr>, sampleLocals) \<and>
   switchToConsensusTick False 0 (60 * 1000000000) (sampleReactor None True, sampleLocals) =
     Continue (sampleReactor None True, sampleLocals)"
  using switchToConsensusTick_handoff [where isCaughtUp = False and lastAdvance = 0
      and now = "61 * 1000000000" and r = "sampleReactor None True" and l = sampleLocals,
      OF refl refl refl]
    switchToConsensusTick_handoff [where isCaughtUp = False and lastAdvance = 0
      and now = "60 * 1000000000" and r = "sampleReactor None True" and l = sampleLocals,
      OF refl refl refl]
  by (simp add: sampleReactor_def sampleLocals_def)

subsection \<open>Panics in message handlers\<close>

text \<open>
  Claim C7: when handling an envelope of the block-sync channel panics, \<^verbatim>\<open>handleMessage\<close>
  returns the panic as an ordinary error, and \<^verbatim>\<open>processBlockSyncCh\<close> sends a peer error
  that names the envelope's sender and goes on with the next envelope (or returns when
  sending the peer error fails). Neither routine has a panic among its results.
\<close>

theorem panic_becomes_peer_error:
  assumes "handleBlockSyncMessage env envelope r = (Panics p, r1)"
    and "perr = ErrorString ''panic in processing message: %v'' [ArgPanic p]"
    and "pe = \<lparr>NodeID = From envelope, Err = perr\<rparr>"
  shows "handleMessage env BlockSyncChannel envelope r = (Some perr, r1) \<and>
    processBlockSyncCh env (envelope # rest) r =
      (if sendError env pe = None then processBlockSyncCh env rest (emit (SendError pe) r1)
       else emit (SendError pe) r1)"
  using assms by (simp add: handleMessage_def Let_def split: option.splits)

theorem panic_becomes_peer_error_witness:
  "handleMessage sampleEnv BlockSyncChannel
      \<lparr>From = ''peerB'', To = [], Broadcast = False, Message = MsgBlockRequest (BlockRequest 7)\<rparr>
      (sampleReactor None True) =
     (Some (ErrorString ''panic in processing message: %v''
              [ArgPanic (PanicString ''corrupted block store'')]), sampleReactor None True) \<and>
   processBlockSyncCh sampleEnv
      [\<lparr>From = ''peerB'', To = [], Broadcast = False, Message = MsgBlockRequest (BlockRequest 7)\<rparr>]
      (sampleReactor None True) =
     sampleReactor None True \<lparr>trace :=
       [SendError \<lparr>NodeID = ''peerB'',
          Err = ErrorString ''panic in processing message: %v''
              [ArgPanic (PanicString ''corrupted block store'')]\<rparr>]\<rparr>"
proof -
  have h: "handleBlockSyncMessage sampleEnv
      \<lparr>From = ''peerB'', To = [], Broadcast = False, Message = MsgBlockRequest (BlockRequest 7)\<rparr>
      (sampleReactor None True) = (Panics (PanicString ''corrupted block store''), sampleReactor None True)"
    by (simp add: handleBlockSyncMessage_def respondToPeer_def sampleEnv_def Let_def)
  have s: "sendError sampleEnv = (\<lambda>e. None)" by (simp add: sampleEnv_def)
  show ?thesis
    using panic_becomes_peer_error [OF h refl refl, of "[]"]
    by (simp add: s emit_def sampleReactor_def)
qed

subsection \<open>Constants\<close>

text \<open>
  Claim C9: the channel descriptor is for channel \<open>0x40\<close> with priority 5, a send queue
  of 1000 and a receive buffer of 1024 (and the message size cap it is given); the status
  update interval is 10 s, the switch-to-consensus interval 1 s, the sync timeout 60 s and
  the try-sync interval 10 ms, in nanoseconds.
\<close>

theorem channel_descriptor_and_intervals:
  "ID (GetChannelDescriptor m) = 0x40 \<and>
   Priority (GetChannelDescriptor m) = 5 \<and>
   SendQueueCapacity (GetChannelDescriptor m) = 1000 \<and>
   RecvBufferCapacity (GetChannelDescriptor m) = 1024 \<and>
   RecvMessageCapacity (GetChannelDescriptor m) = m \<and>
   statusUpdateTickerPeriod = 10 * 1000000000 \<and>
   switchToConsensusTickerPeriod = 1000000000 \<and>
   syncTimeout = 60 * 1000000000 \<and>
   trySyncTickerPeriod = 10 * 1000000"
  by (simp add: GetChannelDescriptor_def BlockSyncChannel_def statusUpdateTickerPeriod_def
      switchToConsensusTickerPeriod_def syncTimeout_def trySyncTickerPeriod_def
      statusUpdateIntervalSeconds_def switchToConsensusIntervalSeconds_def
      trySyncIntervalMS_def Second_def Millisecond_def)

subsection \<open>Loading the last trusted block\<close>

text \<open>
  Claim C10: the panic \<^verbatim>\<open>Failed to load last trusted block\<close> cannot happen, in no arm
  and on no run of the driver loop: the pointer tested is the address of a response that
  was just built. When there is no trusted block, the initial state's last block height is
  not 0 and the store has no block at that height, the trusted response is set with a nil
  block, and the driver takes the branch that compares validator hashes.
\<close>

theorem load_panic_unreachable:
  assumes "lastTrustedBlock r = None"
    and "LastBlockHeight (initialState r) = h"
    and "h \<noteq> 0"
    and "loadBlock env h = None"
    and "block newBlock = Some b"
    and "makePartSet env b = Inr parts"
    and "r1 = r\<lparr>lastTrustedBlock := Some \<lparr>block = None, commit = loadBlockCommit env h\<rparr>\<rparr>"
    and "l1 = l\<lparr>didProcessCh := didProcessCh l + 1\<rparr>"
    and "newBlockID = \<lparr>Hash = blockHash env b, PartSetHeader = partsHeader parts\<rparr>"
  shows "poolRoutine env inputs s \<noteq> Panic (PanicString ''Failed to load last trusted block'') s' \<and>
    processBlock env peek s \<noteq> Panic (PanicString ''Failed to load last trusted block'') s' \<and>
    processBlock env (Some newBlock) (r, l) =
      (if valsHash env (Validators (initialState r)) = ValidatorsHash (bHeader b)
       then commitBlock env newBlock b parts newBlockID (r1, l1)
       else Return (r1, l1))"
  using assms poolRoutine_no_load_panic [of env inputs s s']
    processBlock_no_load_panic [of env peek s s']
  by (simp add: processBlock_def Let_def)

theorem load_panic_unreachable_witness:
  "poolRoutine sampleEnv [TrySyncTicker, DidProcess (Some (sampleResponse sampleHeader1))]
      ((sampleReactor None True)\<lparr>initialState := sampleState\<lparr>LastBlockHeight := 5\<rparr>\<rparr>, sampleLocals)
     \<noteq> Panic (PanicString ''Failed to load last trusted block'')
         ((sampleReactor None True)\<lparr>initialState := sampleState\<lparr>LastBlockHeight := 5\<rparr>\<rparr>, sampleLocals) \<and>
   processBlock sampleEnv (Some (sampleResponse sampleHeader1))
      ((sampleReactor None True)\<lparr>initialState := sampleState\<lparr>LastBlockHeight := 5\<rparr>\<rparr>, sampleLocals) =
     commitBlock sampleEnv (sampleResponse sampleHeader1) \<lparr>bHeader = sampleHeader1, LastCommit = None\<rparr>
       sampleParts \<lparr>Hash = [0xAB], PartSetHeader = partsHeader sampleParts\<rparr>
       ((sampleReactor (Some \<lparr>block = None, commit = None\<rparr>) True)
           \<lparr>initialState := sampleState\<lparr>LastBlockHeight := 5\<rparr>\<rparr>,
        sampleLocals\<lparr>didProcessCh := 1\<rparr>)"
proof -
  let ?r = "(sampleReactor None True)\<lparr>initialState := sampleState\<lparr>LastBlockHeight := 5\<rparr>\<rparr>"
  have a: "lastTrustedBlock ?r = None"
    and b: "LastBlockHeight (initialState ?r) = 5"
    and c: "(5::int64) \<noteq> 0"
    by (simp_all add: sampleReactor_def sampleState_def)
  have d: "loadBlock sampleEnv 5 = None"
    and e: "block (sampleResponse sampleHeader1) = Some \<lparr>bHeader = sampleHeader1, LastCommit = None\<rparr>"
    and f: "\<And>b. makePartSet sampleEnv b = Inr sampleParts"
    and g: "\<And>b. blockHash sampleEnv b = [0xAB]"
    and h: "valsHash sampleEnv (Validators (initialState ?r)) = [1]"
    and i: "loadBlockCommit sampleEnv 5 = None"
    and h': "valsHash sampleEnv (Validators sampleState) = [1]"
    by (simp_all add: sampleEnv_def sampleResponse_def sampleReactor_def sampleState_def)
  note th = load_panic_unreachable [where l = sampleLocals
        and inputs = "[TrySyncTicker, DidProcess (Some (sampleResponse sampleHeader1))]"
        and s = "(?r, sampleLocals)" and s' = "(?r, sampleLocals)" and peek = None,
        OF a b c d e f refl refl refl]
  from th have p1: "poolRoutine sampleEnv [TrySyncTicker, DidProcess (Some (sampleResponse sampleHeader1))]
      (?r, sampleLocals) \<noteq> Panic (PanicString ''Failed to load last trusted block'') (?r, sampleLocals)"
    by (rule conjunct1)
  from th have p2: "processBlock sampleEnv (Some (sampleResponse sampleHeader1)) (?r, sampleLocals) =
      (if valsHash sampleEnv (Validators (initialState ?r)) = ValidatorsHash (bHeader \<lparr>bHeader = sampleHeader1, LastCommit = None\<rparr>)
       then commitBlock sampleEnv (sampleResponse sampleHeader1) \<lparr>bHeader = sampleHeader1, LastCommit = None\<rparr> sampleParts
              \<lparr>Hash = blockHash sampleEnv \<lparr>bHeader = sampleHeader1, LastCommit = None\<rparr>, PartSetHeader = partsHeader sampleParts\<rparr>
              (?r\<lparr>lastTrustedBlock := Some \<lparr>block = None, commit = loadBlockCommit sampleEnv 5\<rparr>\<rparr>,
               sampleLocals\<lparr>didProcessCh := didProcessCh sampleLocals + 1\<rparr>)
       else Return (?r\<lparr>lastTrustedBlock := Some \<lparr>block = None, commit = loadBlockCommit sampleEnv 5\<rparr>\<rparr>,
               sampleLocals\<lparr>didProcessCh := didProcessCh sampleLocals + 1\<rparr>))"
    by (rule conjunct2 [THEN conjunct2])
  have p3: "processBlock sampleEnv (Some (sampleResponse sampleHeader1)) (?r, sampleLocals) =
     commitBlock sampleEnv (sampleResponse sampleHeader1) \<lparr>bHeader = sampleHeader1, LastCommit = None\<rparr>
       sampleParts \<lparr>Hash = [0xAB], PartSetHeader = partsHeader sampleParts\<rparr>
       ((sampleReactor (Some \<lparr>block = None, commit = None\<rparr>) True)
           \<lparr>initialState := sampleState\<lparr>LastBlockHeight := 5\<rparr>\<rparr>,
        sampleLocals\<lparr>didProcessCh := 1\<rparr>)"
    unfolding p2 by (simp add: g h' i sampleHeader1_def sampleLocals_def sampleReactor_def)
  from p1 p3 show ?thesis by (rule conjI)
qed

subsection \<open>The wire codec\<close>

lemma or_push_bit_add:
  fixes acc x :: nat
  assumes "acc < 2 ^ s"
  shows "acc OR push_bit s x = acc + x * 2 ^ s"
proof -
  have "take_bit s acc = acc" using assms by (simp add: take_bit_nat_eq_self)
  have "acc + push_bit s x = acc OR push_bit s x"
  proof (rule disjunctive_add)
    fix n
    show "\<not> bit acc n \<or> \<not> bit (push_bit s x) n"
    proof (cases "n < s")
      case True
      then show ?thesis by (simp add: bit_push_bit_iff)
    next
      case False
      then have "2 ^ s \<le> (2::nat) ^ n" by simp
      with assms have "acc < 2 ^ n" by linarith
      then have "\<not> bit acc n" by (simp add: bit_iff_odd)
      then show ?thesis by simp
    qed
  qed
  then show ?thesis by (simp add: push_bit_eq_mult)
qed

lemma and_127_mod:
  fixes v :: nat
  shows "v AND 0x7f = v mod 128"
proof -
  have "v AND 127 = take_bit 7 v" by (simp add: take_bit_eq_mask mask_eq_exp_minus_1)
  then show ?thesis by (simp add: take_bit_eq_mod)
qed

lemma unat_byte_of_nat:
  fixes v :: nat
  assumes "v < 256"
  shows "unat (of_nat v :: byte) = v"
  using assms by (simp add: unat_of_nat)

lemma low7_byte:
  fixes v :: nat
  shows "unat ((of_nat ((v AND 0x7f) OR 0x80) :: byte) AND 0x7F) = v mod 128"
    and "\<not> (of_nat ((v AND 0x7f) OR 0x80) :: byte) < 0x80"
proof -
  have lt: "v mod 128 < 128" by simp
  have o: "(v mod 128) OR 0x80 = v mod 128 + 128"
    using or_push_bit_add [of "v mod 128" 7 1] lt by (simp add: push_bit_eq_mult)
  have u: "unat (of_nat ((v AND 0x7f) OR 0x80) :: byte) = v mod 128 + 128"
    unfolding and_127_mod o by (rule unat_byte_of_nat) (use lt in linarith)
  show "\<not> (of_nat ((v AND 0x7f) OR 0x80) :: byte) < 0x80"
    by (simp only: word_less_nat_alt u) simp
  have "unat ((of_nat ((v AND 0x7f) OR 0x80) :: byte) AND 0x7F)
      = (v mod 128 + 128) AND 0x7f"
    by (simp only: unsigned_and_eq u) simp
  also have "\<dots> = (v mod 128 + 128) mod 128" by (rule and_127_mod)
  also have "\<dots> = v mod 128" by simp
  finally show "unat ((of_nat ((v AND 0x7f) OR 0x80) :: byte) AND 0x7F) = v mod 128" .
qed

lemma small_byte:
  fixes v :: nat
  assumes "v < 128"
  shows "unat ((of_nat v :: byte) AND 0x7F) = v" and "(of_nat v :: byte) < 0x80"
proof -
  have u: "unat (of_nat v :: byte) = v"
    by (rule unat_byte_of_nat) (use assms in linarith)
  show "(of_nat v :: byte) < 0x80" by (simp only: word_less_nat_alt u) (use assms in simp)
  have "unat ((of_nat v :: byte) AND 0x7F) = v AND 0x7f"
    by (simp only: unsigned_and_eq u) simp
  also have "\<dots> = v mod 128" by (rule and_127_mod)
  finally show "unat ((of_nat v :: byte) AND 0x7F) = v" using assms by simp
qed

lemma length_varint_pos: "0 < length (varint v)"
  by (subst varint.simps) simp

lemma putVarint_eq:
  "offset + length (varint v) \<le> length d \<Longrightarrow>
   putVarint d offset v =
     Returns (take offset d @ varint v @ drop (offset + length (varint v)) d)"
proof (induction d offset v rule: putVarint.induct)
  case (1 dAtA offset v)
  show ?case
  proof (cases "v \<ge> 128")
    case True
    let ?b = "of_nat ((v AND 0x7f) OR 0x80) :: byte"
    have vs: "varint v = ?b # varint (drop_bit 7 v)"
      using True by (subst varint.simps) simp
    have off: "offset < length dAtA" using "1.prems" vs by simp
    have le: "offset + 1 + length (varint (drop_bit 7 v)) \<le> length (dAtA[offset := ?b])"
      using "1.prems" vs by simp
    have "putVarint dAtA offset v = putVarint (dAtA[offset := ?b]) (offset + 1) (drop_bit 7 v)"
      using True off by (subst putVarint.simps) simp
    also have "\<dots> = Returns (take (offset + 1) (dAtA[offset := ?b]) @ varint (drop_bit 7 v) @
        drop (offset + 1 + length (varint (drop_bit 7 v))) (dAtA[offset := ?b]))"
      using "1.IH" [OF True off le] .
    also have "take (offset + 1) (dAtA[offset := ?b]) = take offset dAtA @ [?b]"
      using off by (simp add: take_Suc_conv_app_nth)
    also have "drop (offset + 1 + length (varint (drop_bit 7 v))) (dAtA[offset := ?b])
        = drop (offset + length (varint v)) dAtA"
      using vs by simp
    finally show ?thesis using vs by simp
  next
    case False
    have vs: "varint v = [of_nat v]" using False by (subst varint.simps) simp
    have off: "offset < length dAtA" using "1.prems" vs by simp
    have "putVarint dAtA offset v = Returns (dAtA[offset := of_nat v])"
      using False off by (subst putVarint.simps) simp
    also have "dAtA[offset := of_nat v] = take offset dAtA @ [of_nat v] @ drop (offset + 1) dAtA"
      using off by (simp add: upd_conv_take_nth_drop)
    finally show ?thesis using vs by simp
  qed
qed

lemma Len64_0 [simp]: "Len64 0 = 0"
  by (subst Len64.simps) simp

lemma Len64_pos: "0 < x \<Longrightarrow> Len64 x = Suc (Len64 (x div 2))"
  by (subst Len64.simps) simp

lemma Len64_bound: "x < 2 ^ n \<Longrightarrow> Len64 x \<le> n"
proof (induction n arbitrary: x)
  case 0
  then show ?case by simp
next
  case (Suc n)
  show ?case
  proof (cases "x = 0")
    case True
    then show ?thesis by simp
  next
    case False
    have "x div 2 < 2 ^ n" using Suc.prems by simp
    then have "Len64 (x div 2) \<le> n" by (rule Suc.IH)
    then show ?thesis using False by (simp add: Len64_pos)
  qed
qed

lemma Len64_div_pow:
  "2 ^ k \<le> x \<Longrightarrow> Len64 x = Len64 (x div 2 ^ k) + k"
proof (induction k)
  case 0
  then show ?case by simp
next
  case (Suc k)
  have le: "2 ^ k \<le> x" using Suc.prems by simp
  have "2 ^ k * 2 \<le> x" using Suc.prems by (simp add: mult.commute)
  then have "2 \<le> x div 2 ^ k"
    by (simp add: less_eq_div_iff_mult_less_eq mult.commute)
  then have pos: "0 < x div 2 ^ k" by simp
  have "Len64 x = Len64 (x div 2 ^ k) + k" using le by (rule Suc.IH)
  also have "Len64 (x div 2 ^ k) = Suc (Len64 (x div 2 ^ k div 2))"
    using pos by (rule Len64_pos)
  also have "x div 2 ^ k div 2 = x div 2 ^ Suc k"
    using div_mult2_eq [of x "2 ^ k" 2] by (simp add: mult.commute)
  finally show ?case by simp
qed

lemma Len64_div128:
  assumes "128 \<le> x"
  shows "Len64 x = Len64 (x div 128) + 7"
  using Len64_div_pow [of 7 x] assms by simp

lemma or_1_even:
  fixes x :: nat
  shows "even x \<Longrightarrow> x OR 1 = x + 1" and "odd x \<Longrightarrow> x OR 1 = x"
  using or_one_eq [of x] by simp_all

lemma or_1_pos:
  fixes x :: nat
  assumes "0 < x"
  shows "Len64 (x OR 1) = Len64 x"
proof (cases "even x")
  case True
  then have o: "x OR 1 = x + 1" by (rule or_1_even)
  have "(x + 1) div 2 = x div 2" using True by presburger
  then show ?thesis using assms o by (simp add: Len64_pos)
next
  case False
  then have "x OR 1 = x" by (rule or_1_even)
  then show ?thesis by simp
qed

lemma sovTypes_small: "x < 128 \<Longrightarrow> sovTypes x = 1"
proof -
  assume a: "x < 128"
  have "x OR 1 < 128"
  proof (cases "even x")
    case True
    then have "x OR 1 = x + 1" by (rule or_1_even)
    moreover have "x \<noteq> 127" using True by auto
    ultimately show ?thesis using a by simp
  next
    case False
    then have "x OR 1 = x" by (rule or_1_even)
    then show ?thesis using a by simp
  qed
  then have "Len64 (x OR 1) \<le> 7" using Len64_bound [of "x OR 1" 7] by simp
  moreover have "0 < x OR 1"
  proof (cases "even x")
    case True
    then have "x OR 1 = x + 1" by (rule or_1_even)
    then show ?thesis by simp
  next
    case False
    then have "x OR 1 = x" by (rule or_1_even)
    moreover have "0 < x" using False by (rule odd_pos)
    ultimately show ?thesis by simp
  qed
  then have "0 < Len64 (x OR 1)" by (simp add: Len64_pos)
  ultimately show ?thesis unfolding sovTypes_def by simp
qed

lemma sovTypes_large: "128 \<le> x \<Longrightarrow> sovTypes x = Suc (sovTypes (x div 128))"
proof -
  assume a: "128 \<le> x"
  then have p: "0 < x" "0 < x div 128" by (simp_all add: div_greater_zero_iff)
  show ?thesis
    unfolding sovTypes_def or_1_pos [OF p(1)] or_1_pos [OF p(2)] Len64_div128 [OF a]
    by simp
qed

lemma length_varint: "length (varint v) = sovTypes v"
proof (induction v rule: varint.induct)
  case (1 v)
  show ?case
  proof (cases "v \<ge> 128")
    case True
    then show ?thesis
      using "1.IH" by (subst varint.simps) (simp add: sovTypes_large drop_bit_eq_div)
  next
    case False
    then show ?thesis by (subst varint.simps) (simp add: sovTypes_small)
  qed
qed

lemma push_small:
  fixes x :: nat
  assumes "x < 2 ^ k" and "shift + k \<le> 64"
  shows "push_bit shift x mod 2 ^ 64 = x * 2 ^ shift"
proof -
  have "x * 2 ^ shift < 2 ^ k * 2 ^ shift" using assms(1) by simp
  also have "\<dots> = 2 ^ (shift + k)" by (simp add: power_add mult.commute)
  also have "\<dots> \<le> (2::nat) ^ 64" using assms(2) by (intro power_increasing) simp_all
  finally show ?thesis by (simp add: push_bit_eq_mult)
qed

lemma decodeVarint_more:
  "shift < 64 \<Longrightarrow> i < length d \<Longrightarrow> \<not> d ! i < 0x80 \<Longrightarrow>
   decodeVarint d i shift w =
     decodeVarint d (i + 1) (shift + 7)
       (w OR (push_bit shift (unat (d ! i AND 0x7F)) mod 2 ^ 64))"
  by (subst decodeVarint.simps) simp

lemma decodeVarint_last:
  "shift < 64 \<Longrightarrow> i < length d \<Longrightarrow> d ! i < 0x80 \<Longrightarrow>
   decodeVarint d i shift w =
     Inr (w OR (push_bit shift (unat (d ! i AND 0x7F)) mod 2 ^ 64), i + 1)"
  by (subst decodeVarint.simps) simp

lemma decodeVarint_varint:
  "shift < 64 \<Longrightarrow> v < 2 ^ (64 - shift) \<Longrightarrow> acc < 2 ^ shift \<Longrightarrow>
   decodeVarint (pre @ varint v @ post) (length pre) shift acc =
     Inr (acc + v * 2 ^ shift, length pre + length (varint v))"
proof (induction v arbitrary: pre shift acc rule: varint.induct)
  case (1 v)
  show ?case
  proof (cases "v \<ge> 128")
    case True
    let ?b = "of_nat ((v AND 0x7f) OR 0x80) :: byte"
    let ?d = "pre @ varint v @ post"
    have vs: "varint v = ?b # varint (drop_bit 7 v)"
      using True by (subst varint.simps) simp
    have nth: "?d ! length pre = ?b" by (simp add: vs)
    have len: "length pre < length ?d" by (simp add: vs)
    have sh: "shift + 7 < 64"
    proof (rule ccontr)
      assume "\<not> shift + 7 < 64"
      then have "64 - shift \<le> 7" by simp
      then have "(2::nat) ^ (64 - shift) \<le> 2 ^ 7" by (intro power_increasing) simp_all
      with "1.prems"(2) True show False by simp
    qed
    have low: "v mod 128 < 2 ^ 7" by simp
    have pm: "push_bit shift (v mod 128) mod 2 ^ 64 = (v mod 128) * 2 ^ shift"
      using low by (rule push_small) (use sh in simp)
    have orr: "acc OR ((v mod 128) * 2 ^ shift) = acc + (v mod 128) * 2 ^ shift"
      using or_push_bit_add [OF "1.prems"(3), of "v mod 128"] by (simp add: push_bit_eq_mult)
    let ?acc = "acc + (v mod 128) * 2 ^ shift"
    have acc': "?acc < 2 ^ (shift + 7)"
    proof -
      have "(v mod 128) * 2 ^ shift \<le> 127 * 2 ^ shift" by simp
      then have "?acc < 2 ^ shift + 127 * 2 ^ shift" using "1.prems"(3) by linarith
      also have "\<dots> = 2 ^ (shift + 7)" by (simp add: power_add)
      finally show ?thesis .
    qed
    have vd: "drop_bit 7 v < 2 ^ (64 - (shift + 7))"
    proof -
      have e: "64 - shift = (64 - (shift + 7)) + 7" using sh by simp
      have "(2::nat) ^ (64 - shift) = 2 ^ (64 - (shift + 7)) * 2 ^ 7"
        by (subst e) (rule power_add)
      then have "v < 2 ^ (64 - (shift + 7)) * 128" using "1.prems"(2) by simp
      then show ?thesis by (simp add: drop_bit_eq_div less_mult_imp_div_less)
    qed
    have nb: "\<not> ?d ! length pre < 0x80" unfolding nth by (rule low7_byte(2))
    have val: "acc OR (push_bit shift (unat (?d ! length pre AND 0x7F)) mod 2 ^ 64) = ?acc"
      by (simp only: nth low7_byte(1) pm orr)
    have step: "decodeVarint ?d (length pre) shift acc =
        decodeVarint ?d (length pre + 1) (shift + 7) ?acc"
      using decodeVarint_more [OF "1.prems"(1) len nb, of acc] unfolding val .
    have d': "?d = (pre @ [?b]) @ varint (drop_bit 7 v) @ post" by (simp add: vs)
    have "decodeVarint ((pre @ [?b]) @ varint (drop_bit 7 v) @ post) (length (pre @ [?b]))
        (shift + 7) ?acc =
        Inr (?acc + drop_bit 7 v * 2 ^ (shift + 7),
             length (pre @ [?b]) + length (varint (drop_bit 7 v)))"
      using True sh vd acc' by (rule "1.IH")
    then have "decodeVarint ?d (length pre + 1) (shift + 7) ?acc =
        Inr (?acc + drop_bit 7 v * 2 ^ (shift + 7), length pre + length (varint v))"
      unfolding d' [symmetric] by (simp add: vs)
    moreover have "?acc + drop_bit 7 v * 2 ^ (shift + 7) = acc + v * 2 ^ shift"
    proof -
      have a: "drop_bit 7 v * 2 ^ (shift + 7) = (v div 128) * 128 * 2 ^ shift"
        by (simp add: power_add drop_bit_eq_div)
      have "?acc + (v div 128) * 128 * 2 ^ shift
          = acc + ((v div 128) * 128 + v mod 128) * 2 ^ shift"
        by (simp only: add_mult_distrib)
      also have "(v div 128) * 128 + v mod 128 = v" by simp
      finally show ?thesis unfolding a .
    qed
    ultimately show ?thesis using step by simp
  next
    case False
    let ?d = "pre @ varint v @ post"
    have vs: "varint v = [of_nat v]" using False by (subst varint.simps) simp
    have nth: "?d ! length pre = of_nat v" by (simp add: vs)
    have len: "length pre < length ?d" by (simp add: vs)
    have small: "v < 128" using False by simp
    have pm: "push_bit shift v mod 2 ^ 64 = v * 2 ^ shift"
      using "1.prems"(2) by (rule push_small) (use "1.prems"(1) in simp)
    have orr: "acc OR (v * 2 ^ shift) = acc + v * 2 ^ shift"
      using or_push_bit_add [OF "1.prems"(3), of v] by (simp add: push_bit_eq_mult)
    have sb: "?d ! length pre < 0x80" unfolding nth by (rule small_byte(2) [OF small])
    have val: "acc OR (push_bit shift (unat (?d ! length pre AND 0x7F)) mod 2 ^ 64)
        = acc + v * 2 ^ shift"
      by (simp only: nth small_byte(1) [OF small] pm orr)
    show ?thesis
      using decodeVarint_last [OF "1.prems"(1) len sb, of acc] unfolding val
      by (simp add: vs)
  qed
qed

lemma putVarint_app:
  assumes "length vs = sovTypes v"
  shows "putVarint (a @ vs @ rest) (length a) v = Returns (a @ varint v @ rest)"
proof -
  have l: "length (varint v) = length vs" using assms by (simp add: length_varint)
  have "putVarint (a @ vs @ rest) (length a) v =
      Returns (take (length a) (a @ vs @ rest) @ varint v @
               drop (length a + length (varint v)) (a @ vs @ rest))"
    by (rule putVarint_eq) (simp add: l)
  then show ?thesis by (simp add: l)
qed

lemma encodeVarintTypes_app:
  assumes "length vs = sovTypes v"
  shows "encodeVarintTypes (a @ vs @ rest) (int (length a + length vs)) v =
           Returns (a @ varint v @ rest, int (length a))"
  using putVarint_app [OF assms, of a rest]
  by (simp add: encodeVarintTypes_def Let_def assms)

lemma msgMarshalToSizedBuffer_app:
  assumes "msgMarshal c v = Inr e" and "length es = length e"
  shows "msgMarshalToSizedBuffer c v (a @ es) = Returns (Inr (a @ e, int (length e)))"
  using assms by (simp add: msgMarshalToSizedBuffer_def)

lemma putField_app:
  assumes inner: "inner (pre @ x # vs @ es) = Returns (Inr (pre @ x # vs @ e, int (length e)))"
    and vs: "length vs = sovTypes (length e)"
    and es: "length es = length e"
  shows "putField tag inner (pre @ x # vs @ es @ post)
           (int (length pre + 1 + length vs + length es)) =
         Returns (Inr (pre @ tag # varint (length e) @ e @ post, int (length pre)))"
proof -
  let ?d = "pre @ x # vs @ es @ post"
  let ?k = "length pre + 1 + length vs + length es"
  have tk: "take ?k ?d = pre @ x # vs @ es" by simp
  have dk: "drop ?k ?d = post" by simp
  have enc: "encodeVarintTypes ((pre @ [x]) @ vs @ (e @ post))
      (int (length (pre @ [x]) + length vs)) (length e) =
      Returns ((pre @ [x]) @ varint (length e) @ (e @ post), int (length (pre @ [x])))"
    using vs by (rule encodeVarintTypes_app)
  have e1: "(pre @ x # vs @ e) @ post = (pre @ [x]) @ vs @ (e @ post)" by simp
  have e2: "int ?k - int (length e) = int (length (pre @ [x]) + length vs)"
    using es by simp
  have upd: "((pre @ [x]) @ varint (length e) @ (e @ post))[length pre := tag] =
      pre @ tag # varint (length e) @ e @ post"
    by (simp add: list_update_append)
  show ?thesis
    unfolding putField_def
    by (simp only: tk dk inner e1 e2 enc nat_int call.case sum.case prod.case)
       (simp add: upd)
qed

lemma codecRoundTripsD:
  assumes "codecRoundTrips c v"
  obtains e where "msgMarshal c v = Inr e" and "length e = msgSize c v"
    and "msgUnmarshal c (msgZero c) e = Inr v"
  using assms unfolding codecRoundTrips_def by (cases "msgMarshal c v") auto

lemma length_fieldBytes:
  "fieldRoundTrips c v \<Longrightarrow> length (fieldBytes tag c v) = fieldSize c v"
proof (cases v)
  case None
  then show ?thesis by (simp add: fieldBytes_def fieldSize_def)
next
  case (Some x)
  assume "fieldRoundTrips c v"
  then have "codecRoundTrips c x" using Some by (simp add: fieldRoundTrips_def)
  then obtain e where "msgMarshal c x = Inr e" and "length e = msgSize c x"
    by (rule codecRoundTripsD)
  then show ?thesis using Some by (simp add: fieldBytes_def fieldSize_def length_varint)
qed

lemma split_sized:
  assumes "length zs = 1 + a + b"
  obtains x vs es where "zs = x # vs @ es" and "length vs = b" and "length es = a"
proof -
  obtain x t where zs: "zs = x # t" using assms by (cases zs) auto
  have "t = take b t @ drop b t" by simp
  moreover have "length (take b t) = b" using assms zs by simp
  moreover have "length (drop b t) = a" using assms zs by simp
  ultimately show ?thesis using that zs by metis
qed

lemma putField_field:
  assumes ok: "fieldRoundTrips c v" and len: "length zs = fieldSize c v"
  shows "(case v of
            None \<Rightarrow> Returns (Inr (pre @ zs @ post, int (length pre + length zs)))
          | Some x \<Rightarrow> putField tag (msgMarshalToSizedBuffer c x) (pre @ zs @ post)
                        (int (length pre + length zs))) =
         Returns (Inr (pre @ fieldBytes tag c v @ post, int (length pre)))"
proof (cases v)
  case None
  then show ?thesis using len by (simp add: fieldBytes_def fieldSize_def)
next
  case (Some x)
  then have "codecRoundTrips c x" using ok by (simp add: fieldRoundTrips_def)
  then obtain e where m: "msgMarshal c x = Inr e" and le: "length e = msgSize c x"
    by (rule codecRoundTripsD)
  have "length zs = 1 + length e + sovTypes (length e)"
    using len Some le by (simp add: fieldSize_def)
  then obtain y vs es where zs: "zs = y # vs @ es" and lv: "length vs = sovTypes (length e)"
    and les: "length es = length e"
    by (rule split_sized)
  have inner: "msgMarshalToSizedBuffer c x (pre @ y # vs @ es) =
      Returns (Inr (pre @ y # vs @ e, int (length e)))"
    using msgMarshalToSizedBuffer_app [OF m les, of "pre @ y # vs"] by simp
  have "putField tag (msgMarshalToSizedBuffer c x) (pre @ y # vs @ es @ post)
      (int (length pre + 1 + length vs + length es)) =
      Returns (Inr (pre @ tag # varint (length e) @ e @ post, int (length pre)))"
    using inner lv les by (rule putField_app)
  then show ?thesis using Some m zs by (simp add: fieldBytes_def ac_simps)
qed

lemma length_BlockResponse_bytes:
  "blockResponseRoundTrips C r \<Longrightarrow>
   length (BlockResponse_bytes C r) = BlockResponse_Size C (Some r)"
  by (simp add: blockResponseRoundTrips_def BlockResponse_bytes_def BlockResponse_Size_def
      length_fieldBytes)

lemma BlockResponse_MarshalToSizedBuffer_app:
  assumes ok: "blockResponseRoundTrips C r"
    and len: "length zs = BlockResponse_Size C (Some r)"
  shows "BlockResponse_MarshalToSizedBuffer C r (a @ zs) =
           Returns (Inr (a @ BlockResponse_bytes C r, int (length zs)))"
proof -
  let ?nb = "fieldSize (cBlock C) (Block r)"
  let ?fe = "fieldBytes 0x12 (cExtCommit C) (ExtCommit r)"
  let ?fb = "fieldBytes 0xa (cBlock C) (Block r)"
  define zb where "zb = take ?nb zs"
  define ze where "ze = drop ?nb zs"
  have zs: "zs = zb @ ze" by (simp add: zb_def ze_def)
  have lb: "length zb = fieldSize (cBlock C) (Block r)"
    using len by (simp add: zb_def BlockResponse_Size_def)
  have le: "length ze = fieldSize (cExtCommit C) (ExtCommit r)"
    using len by (simp add: ze_def BlockResponse_Size_def)
  have okb: "fieldRoundTrips (cBlock C) (Block r)"
    and oke: "fieldRoundTrips (cExtCommit C) (ExtCommit r)"
    using ok by (simp_all add: blockResponseRoundTrips_def)
  have s1: "(case ExtCommit r of
               None \<Rightarrow> Returns (Inr (a @ zs, int (length (a @ zs))))
             | Some ec \<Rightarrow> putField 0x12 (msgMarshalToSizedBuffer (cExtCommit C) ec) (a @ zs)
                           (int (length (a @ zs)))) =
            Returns (Inr (a @ zb @ ?fe, int (length a + length zb)))"
  proof -
    have e1: "(a @ zb) @ ze @ [] = a @ zs" by (simp add: zs)
    have e2: "int (length (a @ zb) + length ze) = int (length (a @ zs))" by (simp add: zs)
    have e3: "(a @ zb) @ ?fe @ [] = a @ zb @ ?fe" by simp
    have e4: "int (length (a @ zb)) = int (length a + length zb)" by simp
    show ?thesis
      using putField_field [OF oke le, of "a @ zb" "[]" "0x12"] unfolding e1 e2 e3 e4 .
  qed
  have s2: "(case Block r of
               None \<Rightarrow> Returns (Inr (a @ zb @ ?fe, int (length a + length zb)))
             | Some b \<Rightarrow> putField 0xa (msgMarshalToSizedBuffer (cBlock C) b) (a @ zb @ ?fe)
                          (int (length a + length zb))) =
            Returns (Inr (a @ ?fb @ ?fe, int (length a)))"
    using putField_field [OF okb lb, of a ?fe "0xa"] by simp
  show ?thesis
    unfolding BlockResponse_MarshalToSizedBuffer_def
    by (simp only: s1 s2 call.case sum.case prod.case) (simp add: BlockResponse_bytes_def)
qed

lemma wrapperMarshal_Some:
  assumes inner: "\<And>p es. length es = length e \<Longrightarrow> w (p @ es) = Returns (Inr (p @ e, int (length e)))"
    and len: "length d = 1 + length e + sovTypes (length e)"
  shows "wrapperMarshal tag (Some w) d =
           Returns (Inr (tag # varint (length e) @ e, int (length d)))"
proof -
  obtain x vs es where d: "d = x # vs @ es" and lv: "length vs = sovTypes (length e)"
    and les: "length es = length e"
    using len by (rule split_sized)
  have i: "w ([] @ x # vs @ es) = Returns (Inr ([] @ x # vs @ e, int (length e)))"
    using inner [OF les, of "x # vs"] by simp
  have "putField tag w ([] @ x # vs @ es @ []) (int (length ([]::bytes) + 1 + length vs + length es)) =
      Returns (Inr ([] @ tag # varint (length e) @ e @ [], int (length ([]::bytes))))"
    using i lv les by (rule putField_app)
  then have "putField tag w d (int (length d)) =
      Returns (Inr (tag # varint (length e) @ e, 0))"
    by (simp add: d ac_simps)
  then show ?thesis by (simp add: wrapperMarshal_def)
qed

lemma Message_Marshal_of_writer:
  assumes s: "Sum m = Some s"
    and w: "Sum_MarshalToSizedBuffer C s (replicate (Sum_Size C s) 0) = Returns (Inr (bs, n))"
    and len: "length bs = Sum_Size C s"
  shows "Message_Marshal C m = Returns (Inr bs)"
proof -
  let ?d = "replicate (Sum_Size C s) (0::byte)"
  have mt: "Sum_MarshalTo C s ?d = Returns (Inr (bs, n))"
    by (simp add: Sum_MarshalTo_def Let_def w)
  have ms: "Message_MarshalToSizedBuffer C m ?d = Returns (Inr (bs, int (Sum_Size C s)))"
    by (simp add: Message_MarshalToSizedBuffer_def Let_def s mt)
  show ?thesis
    by (simp add: Message_Marshal_def Message_Size_def Let_def s ms len)
qed

lemma int32_small: "x < 2 ^ 31 \<Longrightarrow> int32 x = int x"
  by (simp add: int32_def)

lemma readTag_small:
  assumes t: "t < 128" and wt: "t AND 7 \<noteq> 4" and fn: "8 \<le> t"
  shows "readTag name (pre @ of_nat t # rest) (length pre) =
           Inr (int (t div 8), t AND 7, length pre + 1)"
proof -
  let ?d = "pre @ (of_nat t :: byte) # rest"
  have nth: "?d ! length pre = of_nat t" by simp
  have len: "length pre < length ?d" by simp
  have sb: "?d ! length pre < 0x80" unfolding nth by (rule small_byte(2) [OF t])
  have pm: "push_bit 0 t mod 2 ^ 64 = t * 2 ^ 0"
    by (rule push_small [of t 7]) (use t in simp_all)
  have val: "0 OR (push_bit 0 (unat (?d ! length pre AND 0x7F)) mod 2 ^ 64) = t"
    by (simp only: nth small_byte(1) [OF t] pm) simp
  have dv: "decodeVarint ?d (length pre) 0 0 = Inr (t, length pre + 1)"
    using decodeVarint_last [of 0 "length pre" ?d 0, OF _ len sb] unfolding val by simp
  have "t div 8 < 2 ^ 31" using t by simp
  then have i32: "int32 (drop_bit 3 t) = int (t div 8)"
    by (simp add: drop_bit_eq_div int32_small)
  have pos: "\<not> int (t div 8) \<le> 0" using fn by simp
  show ?thesis
    unfolding readTag_def dv
    by (simp only: sum.case prod.case Let_def i32 wt pos if_False)
qed

lemma readLengthDelimited_app:
  assumes "length (pre @ varint (length e) @ e @ post) < 2 ^ 63"
  shows "readLengthDelimited (pre @ varint (length e) @ e @ post) (length pre) =
           Inr (length pre + sovTypes (length e), length pre + sovTypes (length e) + length e)"
proof -
  let ?d = "pre @ varint (length e) @ e @ post"
  have b: "length pre + sovTypes (length e) + length e + length post < 2 ^ 63"
    using assms by (simp add: length_varint ac_simps)
  then have n: "length e < 2 ^ 64" by simp
  have dv: "decodeVarint ?d (length pre) 0 0 =
      Inr (length e, length pre + sovTypes (length e))"
    using decodeVarint_varint [of 0 "length e" 0 pre "e @ post"] n
    by (simp add: length_varint)
  have c1: "\<not> length e \<ge> 2 ^ 63" using b by simp
  have c2: "\<not> length pre + sovTypes (length e) + length e \<ge> 2 ^ 63" using b by simp
  have c3: "\<not> length pre + sovTypes (length e) + length e > length ?d"
    by (simp add: length_varint)
  show ?thesis
    unfolding readLengthDelimited_def dv
    by (simp only: sum.case prod.case c1 c2 c3 if_False)
qed

lemma slice_app:
  "slice (pre @ vs @ e @ post) (length pre + length vs) (length pre + length vs + length e) = e"
  by (simp add: slice_def)

lemma readMessage_app:
  assumes bound: "length (pre @ varint (length e) @ e @ post) < 2 ^ 63"
    and un: "msgUnmarshal c receiver e = Inr v"
  shows "readMessage field c receiver 2 (pre @ varint (length e) @ e @ post) (length pre) =
           Inr (v, length pre + sovTypes (length e) + length e)"
proof -
  have sl: "slice (pre @ varint (length e) @ e @ post) (length pre + sovTypes (length e))
      (length pre + sovTypes (length e) + length e) = e"
    using slice_app [of pre "varint (length e)" e post] by (simp add: length_varint)
  show ?thesis
    unfolding readMessage_def readLengthDelimited_app [OF bound]
    by (simp only: sum.case prod.case sl un) simp
qed

lemma readTag_field:
  "readTag name (pre @ 0xa # rest) (length pre) = Inr (1, 2, length pre + 1)"
  "readTag name (pre @ 0x12 # rest) (length pre) = Inr (2, 2, length pre + 1)"
  "readTag name (pre @ 0x1a # rest) (length pre) = Inr (3, 2, length pre + 1)"
  "readTag name (pre @ 0x22 # rest) (length pre) = Inr (4, 2, length pre + 1)"
  "readTag name (pre @ 0x2a # rest) (length pre) = Inr (5, 2, length pre + 1)"
  using readTag_small [of 10 name pre rest] readTag_small [of 18 name pre rest]
    readTag_small [of 26 name pre rest] readTag_small [of 34 name pre rest]
    readTag_small [of 42 name pre rest]
  by simp_all

lemma readMessage_after_tag:
  assumes bound: "length (pre @ tag # varint (length e) @ e @ post) < 2 ^ 63"
    and un: "msgUnmarshal c receiver e = Inr v"
  shows "readMessage field c receiver 2 (pre @ tag # varint (length e) @ e @ post)
           (length pre + 1) =
         Inr (v, length (pre @ tag # varint (length e) @ e))"
proof -
  have b: "length ((pre @ [tag]) @ varint (length e) @ e @ post) < 2 ^ 63"
    using bound by simp
  show ?thesis
    using readMessage_app [OF b un, of field] by (simp add: length_varint)
qed

lemma BlockResponse_loop_step:
  assumes "i < length d" and "BlockResponse_field C d i m = Inr (m', i')"
  shows "BlockResponse_Unmarshal_from C d i m = BlockResponse_Unmarshal_from C d i' m'"
  using assms by (subst BlockResponse_Unmarshal_from.simps) simp

lemma BlockResponse_loop_end:
  "BlockResponse_Unmarshal_from C d (length d) m = Inr m"
  by (subst BlockResponse_Unmarshal_from.simps) simp

lemma Message_loop_step:
  assumes "i < length d" and "Message_field C d i m = Inr (m', i')"
  shows "Message_Unmarshal_from C d i m = Message_Unmarshal_from C d i' m'"
  using assms by (subst Message_Unmarshal_from.simps) simp

lemma Message_loop_end:
  "Message_Unmarshal_from C d (length d) m = Inr m"
  by (subst Message_Unmarshal_from.simps) simp

lemma BlockResponse_field_Block:
  assumes "readTag ''BlockResponse'' d i = Inr (1, w, i1)"
    and "readMessage ''Block'' (cBlock C)
           (case Block m of None \<Rightarrow> msgZero (cBlock C) | Some b \<Rightarrow> b) w d i1 = Inr (v, i')"
  shows "BlockResponse_field C d i m = Inr (m\<lparr>Block := Some v\<rparr>, i')"
  using assms by (simp add: BlockResponse_field_def)

lemma BlockResponse_field_ExtCommit:
  assumes "readTag ''BlockResponse'' d i = Inr (2, w, i1)"
    and "readMessage ''ExtCommit'' (cExtCommit C)
           (case ExtCommit m of None \<Rightarrow> msgZero (cExtCommit C) | Some e \<Rightarrow> e) w d i1 = Inr (v, i')"
  shows "BlockResponse_field C d i m = Inr (m\<lparr>ExtCommit := Some v\<rparr>, i')"
  using assms by (simp add: BlockResponse_field_def)

lemma BlockResponse_Unmarshal_bytes:
  assumes ok: "blockResponseRoundTrips C r"
    and bound: "length (BlockResponse_bytes C r) < 2 ^ 63"
  shows "BlockResponse_Unmarshal C \<lparr>Block = None, ExtCommit = None\<rparr> (BlockResponse_bytes C r)
           = Inr r"
proof -
  let ?fb = "fieldBytes 0xa (cBlock C) (Block r)"
  let ?fe = "fieldBytes 0x12 (cExtCommit C) (ExtCommit r)"
  let ?d = "?fb @ ?fe"
  let ?m0 = "\<lparr>Block = None, ExtCommit = None\<rparr>"
  let ?m1 = "\<lparr>Block = Block r, ExtCommit = None\<rparr>"
  have okb: "fieldRoundTrips (cBlock C) (Block r)"
    and oke: "fieldRoundTrips (cExtCommit C) (ExtCommit r)"
    using ok by (simp_all add: blockResponseRoundTrips_def)
  have bd: "length ?d < 2 ^ 63" using bound by (simp add: BlockResponse_bytes_def)
  have A: "BlockResponse_Unmarshal_from C ?d 0 ?m0 =
      BlockResponse_Unmarshal_from C ?d (length ?fb) ?m1"
  proof (cases "Block r")
    case None
    then show ?thesis by (simp add: fieldBytes_def)
  next
    case (Some b)
    then have "codecRoundTrips (cBlock C) b" using okb by (simp add: fieldRoundTrips_def)
    then obtain e where m: "msgMarshal (cBlock C) b = Inr e"
      and un: "msgUnmarshal (cBlock C) (msgZero (cBlock C)) e = Inr b"
      by (rule codecRoundTripsD)
    have fb: "?fb = 0xa # varint (length e) @ e" using Some m by (simp add: fieldBytes_def)
    have d: "?d = [] @ 0xa # varint (length e) @ e @ ?fe" by (simp add: fb)
    have bd': "length ([] @ 0xa # varint (length e) @ e @ ?fe) < 2 ^ 63"
      using bd unfolding d [symmetric] .
    have rt: "readTag ''BlockResponse'' ?d 0 = Inr (1, 2, 1)"
      using readTag_field(1) [of "''BlockResponse''" "[]" "varint (length e) @ e @ ?fe"]
      by (simp add: fb)
    have rm: "readMessage ''Block'' (cBlock C)
        (case Block ?m0 of None \<Rightarrow> msgZero (cBlock C) | Some b \<Rightarrow> b) 2 ?d 1 =
        Inr (b, length ?fb)"
      using readMessage_after_tag [OF bd' un, of "''Block''"] by (simp add: fb)
    have "BlockResponse_field C ?d 0 ?m0 = Inr (?m0\<lparr>Block := Some b\<rparr>, length ?fb)"
      using rt rm by (rule BlockResponse_field_Block)
    moreover have "?m0\<lparr>Block := Some b\<rparr> = ?m1" using Some by simp
    ultimately have f: "BlockResponse_field C ?d 0 ?m0 = Inr (?m1, length ?fb)" by simp
    have "0 < length ?d" by (simp add: fb)
    then show ?thesis using f by (rule BlockResponse_loop_step)
  qed
  have B: "BlockResponse_Unmarshal_from C ?d (length ?fb) ?m1 = Inr r"
  proof (cases "ExtCommit r")
    case None
    then have "?d = ?fb" by (simp add: fieldBytes_def)
    moreover have "?m1 = r" using None by simp
    ultimately show ?thesis using BlockResponse_loop_end [of C ?fb r] by simp
  next
    case (Some x)
    then have "codecRoundTrips (cExtCommit C) x" using oke by (simp add: fieldRoundTrips_def)
    then obtain e where m: "msgMarshal (cExtCommit C) x = Inr e"
      and un: "msgUnmarshal (cExtCommit C) (msgZero (cExtCommit C)) e = Inr x"
      by (rule codecRoundTripsD)
    have fe: "?fe = 0x12 # varint (length e) @ e" using Some m by (simp add: fieldBytes_def)
    have d: "?d = ?fb @ 0x12 # varint (length e) @ e @ []" by (simp add: fe)
    have bd': "length (?fb @ 0x12 # varint (length e) @ e @ []) < 2 ^ 63"
      using bd unfolding d [symmetric] .
    have rt: "readTag ''BlockResponse'' ?d (length ?fb) = Inr (2, 2, length ?fb + 1)"
      using readTag_field(2) [of "''BlockResponse''" ?fb "varint (length e) @ e"]
      by (simp add: fe)
    have rm: "readMessage ''ExtCommit'' (cExtCommit C)
        (case ExtCommit ?m1 of None \<Rightarrow> msgZero (cExtCommit C) | Some e \<Rightarrow> e) 2 ?d
        (length ?fb + 1) = Inr (x, length ?d)"
      using readMessage_after_tag [OF bd' un, of "''ExtCommit''"] by (simp add: fe)
    have "BlockResponse_field C ?d (length ?fb) ?m1 =
        Inr (?m1\<lparr>ExtCommit := Some x\<rparr>, length ?d)"
      using rt rm by (rule BlockResponse_field_ExtCommit)
    moreover have "?m1\<lparr>ExtCommit := Some x\<rparr> = r" using Some by simp
    ultimately have f: "BlockResponse_field C ?d (length ?fb) ?m1 = Inr (r, length ?d)"
      by simp
    have "length ?fb < length ?d" by (simp add: fe)
    then have "BlockResponse_Unmarshal_from C ?d (length ?fb) ?m1 =
        BlockResponse_Unmarshal_from C ?d (length ?d) r"
      using f by (rule BlockResponse_loop_step)
    then show ?thesis by (simp only: BlockResponse_loop_end)
  qed
  show ?thesis
    unfolding BlockResponse_Unmarshal_def BlockResponse_bytes_def using A B by simp
qed

lemma Message_field_BlockRequest:
  assumes "readTag ''Message'' d i = Inr (1, w, i1)"
    and "readMessage ''BlockRequest'' (cBlockRequest C) (msgZero (cBlockRequest C)) w d i1
           = Inr (v, i')"
  shows "Message_field C d i m = Inr (m\<lparr>Sum := Some (Message_BlockRequest (Some v))\<rparr>, i')"
  using assms by (simp add: Message_field_def)

lemma Message_field_NoBlockResponse:
  assumes "readTag ''Message'' d i = Inr (2, w, i1)"
    and "readMessage ''NoBlockResponse'' (cNoBlockResponse C) (msgZero (cNoBlockResponse C))
           w d i1 = Inr (v, i')"
  shows "Message_field C d i m = Inr (m\<lparr>Sum := Some (Message_NoBlockResponse (Some v))\<rparr>, i')"
  using assms by (simp add: Message_field_def)

lemma Message_field_BlockResponse:
  assumes "readTag ''Message'' d i = Inr (3, 2, i1)"
    and "readLengthDelimited d i1 = Inr (i2, postIndex)"
    and "BlockResponse_Unmarshal C \<lparr>Block = None, ExtCommit = None\<rparr> (slice d i2 postIndex)
           = Inr v"
  shows "Message_field C d i m =
           Inr (m\<lparr>Sum := Some (Message_BlockResponse (Some v))\<rparr>, postIndex)"
  using assms by (simp add: Message_field_def)

lemma Message_field_StatusRequest:
  assumes "readTag ''Message'' d i = Inr (4, w, i1)"
    and "readMessage ''StatusRequest'' (cStatusRequest C) (msgZero (cStatusRequest C)) w d i1
           = Inr (v, i')"
  shows "Message_field C d i m = Inr (m\<lparr>Sum := Some (Message_StatusRequest (Some v))\<rparr>, i')"
  using assms by (simp add: Message_field_def)

lemma Message_field_StatusResponse:
  assumes "readTag ''Message'' d i = Inr (5, w, i1)"
    and "readMessage ''StatusResponse'' (cStatusResponse C) (msgZero (cStatusResponse C))
           w d i1 = Inr (v, i')"
  shows "Message_field C d i m = Inr (m\<lparr>Sum := Some (Message_StatusResponse (Some v))\<rparr>, i')"
  using assms by (simp add: Message_field_def)

lemma Message_Unmarshal_one:
  assumes "Message_field C d 0 m0 = Inr (m', length d)" and "0 < length d"
  shows "Message_Unmarshal C m0 d = Inr m'"
  unfolding Message_Unmarshal_def
  using Message_loop_step [OF assms(2) assms(1)] by (simp only: Message_loop_end)

lemma param_variant:
  assumes rt: "codecRoundTrips c x" and bound: "fieldSize c (Some x) < 2 ^ 63"
  obtains e where
    "wrapperMarshal tag (Some (msgMarshalToSizedBuffer c x)) (replicate (fieldSize c (Some x)) 0)
       = Returns (Inr (tag # varint (length e) @ e, int (fieldSize c (Some x))))"
    and "length (tag # varint (length e) @ e) = fieldSize c (Some x)"
    and "readMessage field c (msgZero c) 2 (tag # varint (length e) @ e) 1
       = Inr (x, length (tag # varint (length e) @ e))"
proof -
  obtain e where m: "msgMarshal c x = Inr e" and le: "length e = msgSize c x"
    and un: "msgUnmarshal c (msgZero c) e = Inr x"
    using rt by (rule codecRoundTripsD)
  have fs: "fieldSize c (Some x) = 1 + length e + sovTypes (length e)"
    by (simp add: fieldSize_def le)
  have inner: "\<And>p es. length es = length e \<Longrightarrow>
      msgMarshalToSizedBuffer c x (p @ es) = Returns (Inr (p @ e, int (length e)))"
    using m by (rule msgMarshalToSizedBuffer_app)
  have len: "length (replicate (fieldSize c (Some x)) (0::byte)) = 1 + length e + sovTypes (length e)"
    by (simp add: fs)
  have a: "wrapperMarshal tag (Some (msgMarshalToSizedBuffer c x))
      (replicate (fieldSize c (Some x)) 0)
       = Returns (Inr (tag # varint (length e) @ e, int (fieldSize c (Some x))))"
    using wrapperMarshal_Some [OF inner len, of tag] by simp
  have b: "length (tag # varint (length e) @ e) = fieldSize c (Some x)"
    by (simp add: fs length_varint)
  have bd: "length ([] @ tag # varint (length e) @ e @ []) < 2 ^ 63"
    using bound b by simp
  have c: "readMessage field c (msgZero c) 2 (tag # varint (length e) @ e) 1
       = Inr (x, length (tag # varint (length e) @ e))"
    using readMessage_after_tag [OF bd un, of field] by simp
  from a b c show ?thesis by (rule that)
qed

lemma Message_eq: "Sum (m::Message) = Some s \<Longrightarrow> \<lparr>Sum = Some s\<rparr> = m"
  by (cases m) simp

lemma variant_roundtrip:
  assumes sum: "Sum m = Some s"
    and w: "Sum_MarshalToSizedBuffer C s = wrapperMarshal tag (Some (msgMarshalToSizedBuffer c x))"
    and sz: "Sum_Size C s = fieldSize c (Some x)"
    and rt: "codecRoundTrips c x"
    and bound: "Message_Size C m < 2 ^ 63"
    and tg: "\<And>rest. readTag ''Message'' (tag # rest) 0 = Inr (k, 2, 1)"
    and fld: "\<And>d v i'. readTag ''Message'' d 0 = Inr (k, 2, 1) \<Longrightarrow>
        readMessage field c (msgZero c) 2 d 1 = Inr (v, i') \<Longrightarrow>
        Message_field C d 0 \<lparr>Sum = None\<rparr> = Inr (\<lparr>Sum = Some (K (Some v))\<rparr>, i')"
    and s: "s = K (Some x)"
  shows "\<exists>bs. Message_Marshal C m = Returns (Inr bs) \<and> length bs = Message_Size C m \<and>
           Message_Unmarshal C \<lparr>Sum = None\<rparr> bs = Inr m \<and> hd bs = tag"
proof -
  have ms: "Message_Size C m = fieldSize c (Some x)"
    by (simp add: Message_Size_def sum sz)
  then have b: "fieldSize c (Some x) < 2 ^ 63" using bound by simp
  obtain e where
    a1: "wrapperMarshal tag (Some (msgMarshalToSizedBuffer c x)) (replicate (fieldSize c (Some x)) 0)
       = Returns (Inr (tag # varint (length e) @ e, int (fieldSize c (Some x))))"
    and a2: "length (tag # varint (length e) @ e) = fieldSize c (Some x)"
    and a3: "readMessage field c (msgZero c) 2 (tag # varint (length e) @ e) 1
       = Inr (x, length (tag # varint (length e) @ e))"
    using rt b by (rule param_variant)
  let ?d = "tag # varint (length e) @ e"
  have wr: "Sum_MarshalToSizedBuffer C s (replicate (Sum_Size C s) 0) =
      Returns (Inr (?d, int (fieldSize c (Some x))))"
    unfolding w sz by (rule a1)
  have l: "length ?d = Sum_Size C s" unfolding sz by (rule a2)
  have mar: "Message_Marshal C m = Returns (Inr ?d)"
    using sum wr l by (rule Message_Marshal_of_writer)
  have f: "Message_field C ?d 0 \<lparr>Sum = None\<rparr> = Inr (\<lparr>Sum = Some (K (Some x))\<rparr>, length ?d)"
    using tg a3 by (rule fld)
  have "Message_Unmarshal C \<lparr>Sum = None\<rparr> ?d = Inr \<lparr>Sum = Some (K (Some x))\<rparr>"
    using f by (rule Message_Unmarshal_one) simp
  then have un: "Message_Unmarshal C \<lparr>Sum = None\<rparr> ?d = Inr m"
    using Message_eq [OF sum] s by simp
  have "length ?d = Message_Size C m" using a2 ms by simp
  with mar un show ?thesis by (intro exI [of _ ?d]) simp
qed

lemma BlockResponse_variant_roundtrip:
  assumes sum: "Sum m = Some (Message_BlockResponse (Some r))"
    and ok: "blockResponseRoundTrips C r"
    and bound: "Message_Size C m < 2 ^ 63"
  shows "\<exists>bs. Message_Marshal C m = Returns (Inr bs) \<and> length bs = Message_Size C m \<and>
           Message_Unmarshal C \<lparr>Sum = None\<rparr> bs = Inr m \<and> hd bs = 0x1a"
proof -
  let ?s = "Message_BlockResponse (Some r)"
  let ?e = "BlockResponse_bytes C r"
  let ?d = "0x1a # varint (length ?e) @ ?e"
  have le: "length ?e = BlockResponse_Size C (Some r)"
    using ok by (rule length_BlockResponse_bytes)
  have ss: "Sum_Size C ?s = 1 + length ?e + sovTypes (length ?e)" unfolding le by simp
  have ms: "Message_Size C m = Sum_Size C ?s" by (simp add: Message_Size_def sum)
  have ld: "length ?d = Sum_Size C ?s" unfolding ss by (simp add: length_varint)
  have bd: "length ([0x1a] @ varint (length ?e) @ ?e @ []) < 2 ^ 63"
    using bound ms ld by simp
  then have be: "length ?e < 2 ^ 63" by simp
  have inner: "\<And>p es. length es = length ?e \<Longrightarrow>
      BlockResponse_MarshalToSizedBuffer C r (p @ es) = Returns (Inr (p @ ?e, int (length ?e)))"
    using BlockResponse_MarshalToSizedBuffer_app [OF ok] le by simp
  have len: "length (replicate (Sum_Size C ?s) (0::byte)) = 1 + length ?e + sovTypes (length ?e)"
    by (simp only: length_replicate ss)
  have "wrapperMarshal 0x1a (Some (BlockResponse_MarshalToSizedBuffer C r))
      (replicate (Sum_Size C ?s) 0) =
      Returns (Inr (?d, int (length (replicate (Sum_Size C ?s) (0::byte)))))"
    using inner len by (rule wrapperMarshal_Some)
  then have wr: "Sum_MarshalToSizedBuffer C ?s (replicate (Sum_Size C ?s) 0) =
      Returns (Inr (?d, int (length (replicate (Sum_Size C ?s) (0::byte)))))"
    by simp
  have mar: "Message_Marshal C m = Returns (Inr ?d)"
    using sum wr ld by (rule Message_Marshal_of_writer)
  have rtag: "readTag ''Message'' ?d 0 = Inr (3, 2, 1)"
    using readTag_field(3) [of "''Message''" "[]"] by simp
  have rl: "readLengthDelimited ?d 1 =
      Inr (1 + sovTypes (length ?e), 1 + sovTypes (length ?e) + length ?e)"
    using readLengthDelimited_app [OF bd] by simp
  have sl: "slice ?d (1 + sovTypes (length ?e)) (1 + sovTypes (length ?e) + length ?e) = ?e"
    using slice_app [of "[0x1a]" "varint (length ?e)" ?e "[]"] by (simp add: length_varint)
  have bu: "BlockResponse_Unmarshal C \<lparr>Block = None, ExtCommit = None\<rparr>
      (slice ?d (1 + sovTypes (length ?e)) (1 + sovTypes (length ?e) + length ?e)) = Inr r"
    unfolding sl using ok be by (rule BlockResponse_Unmarshal_bytes)
  have f: "Message_field C ?d 0 \<lparr>Sum = None\<rparr> =
      Inr (\<lparr>Sum = None\<rparr>\<lparr>Sum := Some (Message_BlockResponse (Some r))\<rparr>,
           1 + sovTypes (length ?e) + length ?e)"
    using rtag rl bu by (rule Message_field_BlockResponse)
  have e1: "1 + sovTypes (length ?e) + length ?e = length ?d" by (simp add: length_varint)
  have e2: "\<lparr>Sum = None\<rparr>\<lparr>Sum := Some (Message_BlockResponse (Some r))\<rparr> = m"
    using Message_eq [OF sum] by simp
  have f': "Message_field C ?d 0 \<lparr>Sum = None\<rparr> = Inr (m, length ?d)"
    using f unfolding e1 e2 .
  have un: "Message_Unmarshal C \<lparr>Sum = None\<rparr> ?d = Inr m"
    using f' by (rule Message_Unmarshal_one) simp
  have "length ?d = Message_Size C m" using ld ms by simp
  with mar un show ?thesis by (intro exI [of _ ?d]) simp
qed

lemma sample_marshal:
  "Message_Marshal sampleCodecs \<lparr>Sum = Some (Message_BlockRequest (Some (BlockRequest 5)))\<rparr>
     = Returns (Inr [0x0a, 2, 8, 5])"
  by code_simp

text \<open>
  Claim C8 says that every \<open>Message\<close> whose \<open>Sum\<close> is one of the five variants survives
  \<^verbatim>\<open>Marshal\<close> followed by \<^verbatim>\<open>Unmarshal\<close>. It fails for a wrapper whose inner pointer is
  nil: each wrapper's \<^verbatim>\<open>MarshalToSizedBuffer\<close> writes its field only
  \<^verbatim>\<open>if m.X != nil\<close>, so such a message marshals to no bytes at all, and unmarshalling no
  bytes gives a \<open>Message\<close> whose \<open>Sum\<close> is nil.
\<close>

theorem nil_inner_message_lost_counterexample:
  "Message_Marshal sampleCodecs \<lparr>Sum = Some (Message_StatusRequest None)\<rparr> = Returns (Inr []) \<and>
   Message_Unmarshal sampleCodecs \<lparr>Sum = None\<rparr> [] = Inr \<lparr>Sum = None\<rparr> \<and>
   \<lparr>Sum = None\<rparr> \<noteq> \<lparr>Sum = Some (Message_StatusRequest None)\<rparr>"
  using Message_loop_end [of sampleCodecs "[]" "\<lparr>Sum = None\<rparr>"]
  by (simp add: Message_Marshal_def Message_Size_def Message_MarshalToSizedBuffer_def
      Sum_MarshalTo_def wrapperMarshal_def fieldSize_def Message_Unmarshal_def Let_def)

text \<open>
  Claim C8 as amended: let the \<open>Sum\<close> of a \<open>Message\<close> be one of the five wrappers, holding
  a message that is not nil and that its own codec round-trips (for a \<open>BlockResponse\<close>:
  its block and its extended commit, each when present), and let \<^verbatim>\<open>Size()\<close> of the
  \<open>Message\<close> be below \<open>2 ^ 63\<close>. Then \<^verbatim>\<open>Marshal\<close> returns a buffer without error or
  panic, the buffer's length is \<^verbatim>\<open>Size()\<close>, \<^verbatim>\<open>Unmarshal\<close> of the buffer into a fresh
  \<open>Message\<close> succeeds and gives the original, and the buffer starts with the tag of
  field 1 to 5, according to the variant, with wire type 2.
\<close>

theorem Message_roundtrip:
  assumes sum: "Sum m = Some s"
    and ok: "innerRoundTrips C s"
    and bound: "Message_Size C m < 2 ^ 63"
  shows "\<exists>bs. Message_Marshal C m = Returns (Inr bs) \<and> length bs = Message_Size C m \<and>
           Message_Unmarshal C \<lparr>Sum = None\<rparr> bs = Inr m \<and>
           hd bs = of_nat (8 * fieldNumber s + 2)"
proof (cases s)
  case (Message_BlockRequest v)
  then obtain x where v: "v = Some x" and rt: "codecRoundTrips (cBlockRequest C) x"
    using ok by (cases v) simp_all
  have "\<exists>bs. Message_Marshal C m = Returns (Inr bs) \<and> length bs = Message_Size C m \<and>
           Message_Unmarshal C \<lparr>Sum = None\<rparr> bs = Inr m \<and> hd bs = 0xa"
  proof (rule variant_roundtrip [OF sum _ _ rt bound, where K = Message_BlockRequest])
    show "Sum_MarshalToSizedBuffer C s =
        wrapperMarshal 0xa (Some (msgMarshalToSizedBuffer (cBlockRequest C) x))"
      by (simp add: Message_BlockRequest v)
    show "Sum_Size C s = fieldSize (cBlockRequest C) (Some x)"
      by (simp add: Message_BlockRequest v)
    show "\<And>rest. readTag ''Message'' (0xa # rest) 0 = Inr (1, 2, 1)"
      using readTag_field(1) [of "''Message''" "[]"] by simp
    show "\<And>d v i'. readTag ''Message'' d 0 = Inr (1, 2, 1) \<Longrightarrow>
        readMessage ''BlockRequest'' (cBlockRequest C) (msgZero (cBlockRequest C)) 2 d 1
          = Inr (v, i') \<Longrightarrow>
        Message_field C d 0 \<lparr>Sum = None\<rparr> = Inr (\<lparr>Sum = Some (Message_BlockRequest (Some v))\<rparr>, i')"
      using Message_field_BlockRequest [of _ 0 2 1 C _ _ "\<lparr>Sum = None\<rparr>"] by simp
    show "s = Message_BlockRequest (Some x)" by (simp add: Message_BlockRequest v)
  qed
  then show ?thesis by (simp add: Message_BlockRequest)
next
  case (Message_NoBlockResponse v)
  then obtain x where v: "v = Some x" and rt: "codecRoundTrips (cNoBlockResponse C) x"
    using ok by (cases v) simp_all
  have "\<exists>bs. Message_Marshal C m = Returns (Inr bs) \<and> length bs = Message_Size C m \<and>
           Message_Unmarshal C \<lparr>Sum = None\<rparr> bs = Inr m \<and> hd bs = 0x12"
  proof (rule variant_roundtrip [OF sum _ _ rt bound, where K = Message_NoBlockResponse])
    show "Sum_MarshalToSizedBuffer C s =
        wrapperMarshal 0x12 (Some (msgMarshalToSizedBuffer (cNoBlockResponse C) x))"
      by (simp add: Message_NoBlockResponse v)
    show "Sum_Size C s = fieldSize (cNoBlockResponse C) (Some x)"
      by (simp add: Message_NoBlockResponse v)
    show "\<And>rest. readTag ''Message'' (0x12 # rest) 0 = Inr (2, 2, 1)"
      using readTag_field(2) [of "''Message''" "[]"] by simp
    show "\<And>d v i'. readTag ''Message'' d 0 = Inr (2, 2, 1) \<Longrightarrow>
        readMessage ''NoBlockResponse'' (cNoBlockResponse C) (msgZero (cNoBlockResponse C)) 2 d 1
          = Inr (v, i') \<Longrightarrow>
        Message_field C d 0 \<lparr>Sum = None\<rparr> =
          Inr (\<lparr>Sum = Some (Message_NoBlockResponse (Some v))\<rparr>, i')"
      using Message_field_NoBlockResponse [of _ 0 2 1 C _ _ "\<lparr>Sum = None\<rparr>"] by simp
    show "s = Message_NoBlockResponse (Some x)" by (simp add: Message_NoBlockResponse v)
  qed
  then show ?thesis by (simp add: Message_NoBlockResponse)
next
  case (Message_BlockResponse v)
  then obtain r where v: "v = Some r" and rt: "blockResponseRoundTrips C r"
    using ok by (cases v) simp_all
  have "Sum m = Some (Message_BlockResponse (Some r))"
    using sum Message_BlockResponse v by simp
  then have "\<exists>bs. Message_Marshal C m = Returns (Inr bs) \<and> length bs = Message_Size C m \<and>
           Message_Unmarshal C \<lparr>Sum = None\<rparr> bs = Inr m \<and> hd bs = 0x1a"
    using rt bound by (rule BlockResponse_variant_roundtrip)
  then show ?thesis by (simp add: Message_BlockResponse)
next
  case (Message_StatusRequest v)
  then obtain x where v: "v = Some x" and rt: "codecRoundTrips (cStatusRequest C) x"
    using ok by (cases v) simp_all
  have "\<exists>bs. Message_Marshal C m = Returns (Inr bs) \<and> length bs = Message_Size C m \<and>
           Message_Unmarshal C \<lparr>Sum = None\<rparr> bs = Inr m \<and> hd bs = 0x22"
  proof (rule variant_roundtrip [OF sum _ _ rt bound, where K = Message_StatusRequest])
    show "Sum_MarshalToSizedBuffer C s =
        wrapperMarshal 0x22 (Some (msgMarshalToSizedBuffer (cStatusRequest C) x))"
      by (simp add: Message_StatusRequest v)
    show "Sum_Size C s = fieldSize (cStatusRequest C) (Some x)"
      by (simp add: Message_StatusRequest v)
    show "\<And>rest. readTag ''Message'' (0x22 # rest) 0 = Inr (4, 2, 1)"
      using readTag_field(4) [of "''Message''" "[]"] by simp
    show "\<And>d v i'. readTag ''Message'' d 0 = Inr (4, 2, 1) \<Longrightarrow>
        readMessage ''StatusRequest'' (cStatusRequest C) (msgZero (cStatusRequest C)) 2 d 1
          = Inr (v, i') \<Longrightarrow>
        Message_field C d 0 \<lparr>Sum = None\<rparr> =
          Inr (\<lparr>Sum = Some (Message_StatusRequest (Some v))\<rparr>, i')"
      using Message_field_StatusRequest [of _ 0 2 1 C _ _ "\<lparr>Sum = None\<rparr>"] by simp
    show "s = Message_StatusRequest (Some x)" by (simp add: Message_StatusRequest v)
  qed
  then show ?thesis by (simp add: Message_StatusRequest)
next
  case (Message_StatusResponse v)
  then obtain x where v: "v = Some x" and rt: "codecRoundTrips (cStatusResponse C) x"
    using ok by (cases v) simp_all
  have "\<exists>bs. Message_Marshal C m = Returns (Inr bs) \<and> length bs = Message_Size C m \<and>
           Message_Unmarshal C \<lparr>Sum = None\<rparr> bs = Inr m \<and> hd bs = 0x2a"
  proof (rule variant_roundtrip [OF sum _ _ rt bound, where K = Message_StatusResponse])
    show "Sum_MarshalToSizedBuffer C s =
        wrapperMarshal 0x2a (Some (msgMarshalToSizedBuffer (cStatusResponse C) x))"
      by (simp add: Message_StatusResponse v)
    show "Sum_Size C s = fieldSize (cStatusResponse C) (Some x)"
      by (simp add: Message_StatusResponse v)
    show "\<And>rest. readTag ''Message'' (0x2a # rest) 0 = Inr (5, 2, 1)"
      using readTag_field(5) [of "''Message''" "[]"] by simp
    show "\<And>d v i'. readTag ''Message'' d 0 = Inr (5, 2, 1) \<Longrightarrow>
        readMessage ''StatusResponse'' (cStatusResponse C) (msgZero (cStatusResponse C)) 2 d 1
          = Inr (v, i') \<Longrightarrow>
        Message_field C d 0 \<lparr>Sum = None\<rparr> =
          Inr (\<lparr>Sum = Some (Message_StatusResponse (Some v))\<rparr>, i')"
      using Message_field_StatusResponse [of _ 0 2 1 C _ _ "\<lparr>Sum = None\<rparr>"] by simp
    show "s = Message_StatusResponse (Some x)" by (simp add: Message_StatusResponse v)
  qed
  then show ?thesis by (simp add: Message_StatusResponse)
qed

theorem Message_roundtrip_witness:
  "Message_Marshal sampleCodecs \<lparr>Sum = Some (Message_BlockRequest (Some (BlockRequest 5)))\<rparr>
     = Returns (Inr [0x0a, 2, 8, 5]) \<and>
   Message_Unmarshal sampleCodecs \<lparr>Sum = None\<rparr> [0x0a, 2, 8, 5]
     = Inr \<lparr>Sum = Some (Message_BlockRequest (Some (BlockRequest 5)))\<rparr> \<and>
   Message_Size sampleCodecs \<lparr>Sum = Some (Message_BlockRequest (Some (BlockRequest 5)))\<rparr> = 4"
proof -
  let ?m = "\<lparr>Sum = Some (Message_BlockRequest (Some (BlockRequest 5)))\<rparr>"
  have s: "Sum ?m = Some (Message_BlockRequest (Some (BlockRequest 5)))" by simp
  have ok: "innerRoundTrips sampleCodecs (Message_BlockRequest (Some (BlockRequest 5)))"
    by (simp add: codecRoundTrips_def sampleCodecs_def sampleHeightCodec_def)
  have sz: "Message_Size sampleCodecs ?m = 4"
    by (simp add: Message_Size_def fieldSize_def sampleCodecs_def sampleHeightCodec_def
        sovTypes_small)
  then have b: "Message_Size sampleCodecs ?m < 2 ^ 63" by simp
  obtain bs where m: "Message_Marshal sampleCodecs ?m = Returns (Inr bs)"
    and u: "Message_Unmarshal sampleCodecs \<lparr>Sum = None\<rparr> bs = Inr ?m"
    using Message_roundtrip [OF s ok b] by blast
  have "bs = [0x0a, 2, 8, 5]" using m sample_marshal by simp
  with m u sz show ?thesis by simp
qed

end
